theory Spec2Isabelle
  imports Main "HOL-Library.Product_Lexorder"
begin

section \<open>Python strings\<close>

text \<open>
  A Python \<open>str\<close> is a sequence of Unicode code points, so it is modelled as a list of
  natural numbers; \<open>ustr\<close> turns an ASCII literal of this theory into such a string.
\<close>

type_synonym pystr = "nat list"

definition ustr :: "string \<Rightarrow> pystr" where
  "ustr s = map of_char s"

text \<open>\<open>sep.join(xs)\<close>.\<close>

fun join :: "pystr \<Rightarrow> pystr list \<Rightarrow> pystr" where
  "join sep [] = []"
| "join sep [x] = x"
| "join sep (x # y # ys) = x @ sep @ join sep (y # ys)"

text \<open>\<open>str(n)\<close> for an integer: decimal digits, a minus sign for a negative number.\<close>

function str_nat :: "nat \<Rightarrow> pystr" where
  "str_nat n = (if n < 10 then [48 + n] else str_nat (n div 10) @ [48 + n mod 10])"
  by pat_completeness auto
termination
  by (relation "measure (\<lambda>n. n)") auto

declare str_nat.simps [simp del]

definition str_int :: "int \<Rightarrow> pystr" where
  "str_int i = (if i < 0 then 45 # str_nat (nat (- i)) else str_nat (nat i))"

text \<open>
  \<open>str.strip()\<close> removes the characters for which \<open>str.isspace()\<close> holds from both
  ends: the ASCII white space, the separators U+001C to U+001F, U+0085, U+00A0 and the
  Unicode space separators.
\<close>

definition is_space :: "nat \<Rightarrow> bool" where
  "is_space c =
     (c \<in> {9, 10, 11, 12, 13, 28, 29, 30, 31, 32, 133, 160, 5760, 8232, 8233, 8239, 8287, 12288}
      \<or> (8192 \<le> c \<and> c \<le> 8202))"

definition strip :: "pystr \<Rightarrow> pystr" where
  "strip s = rev (dropWhile is_space (rev (dropWhile is_space s)))"

text \<open>
  \<open>s.split(sep)\<close> for a separator of one character: one piece more than there are
  separators, the empty string giving one empty piece. (The second branch of the
  \<open>case\<close> is never taken: the result is never empty.)
\<close>

fun split_on :: "'a \<Rightarrow> 'a list \<Rightarrow> 'a list list" where
  "split_on c [] = [[]]"
| "split_on c (x # xs) =
     (if x = c then [] # split_on c xs
      else (case split_on c xs of [] \<Rightarrow> [[x]] | p # ps \<Rightarrow> (x # p) # ps))"

section \<open>Magic strings (utils.py, class Magics)\<close>

text \<open>
  \<^verbatim>\<open>
    def resolve(cls, string: str, **kwargs) -> str:
        from catin.settings import settings

        def _resolve(match):
            expr = match.group(1)
            try:
                if ":" in expr:
                    resolver_name, params_str = expr.split(":", 1)
                    params = [Magics.resolve(p, **kwargs) for p in params_str.split(",")]
                    return str(settings.resolvers[resolver_name](*params))
                else:
                    if kwargs[expr] is not None:
                        return kwargs[expr]
            except:
                ...
            return match.group(0)

        return re.sub(r"\${(.+)}", _resolve, string.strip())
  \<close>
  The pattern matches \<open>${\<close>, then one or more characters other than a newline, as many
  as possible, then \<open>}\<close>: at a position where the string continues with \<open>${\<close>, group 1
  runs to the last \<open>}\<close> before the end of the line, and must not be empty.
  \<open>match_here\<close> returns group 1 and the text after the match.
\<close>

fun last_index :: "'a \<Rightarrow> 'a list \<Rightarrow> nat option" where
  "last_index c [] = None"
| "last_index c (x # xs) =
     (case last_index c xs of Some k \<Rightarrow> Some (Suc k) | None \<Rightarrow> if x = c then Some 0 else None)"

definition match_here :: "pystr \<Rightarrow> (pystr \<times> pystr) option" where
  "match_here s =
     (case s of
        a # b # t \<Rightarrow>
          if a = 36 \<and> b = 123 then
            (case last_index 125 (takeWhile (\<lambda>c. c \<noteq> 10) t) of
               None \<Rightarrow> None
             | Some k \<Rightarrow> if k = 0 then None else Some (take k t, drop (Suc k) t))
          else None
      | _ \<Rightarrow> None)"

text \<open>
  \<open>settings.resolvers\<close> maps a resolver's name to a callable; a call that raises (or
  whose result \<open>str\<close> cannot render) is \<open>None\<close>. \<open>kwargs\<close> maps a variable to its value,
  which may be \<open>None\<close>. Every exception inside \<open>_resolve\<close> (a missing key included) is
  caught by the bare \<open>except\<close>, after which the matched text \<open>group(0)\<close> is returned.
\<close>

record magics =
  resolvers :: "pystr \<rightharpoonup> (pystr list \<Rightarrow> pystr option)"
  kwargs :: "pystr \<rightharpoonup> pystr option"

definition group0 :: "pystr \<Rightarrow> pystr" where
  "group0 expr = ustr ''${'' @ expr @ ustr ''}''"

definition params_of :: "pystr \<Rightarrow> pystr list" where
  "params_of expr = split_on 44 (tl (dropWhile (\<lambda>c. c \<noteq> 58) expr))"

definition resolve_match :: "magics \<Rightarrow> (pystr \<Rightarrow> pystr) \<Rightarrow> pystr \<Rightarrow> pystr" where
  "resolve_match env rec expr =
     (if 58 \<in> set expr then
        (let resolver_name = takeWhile (\<lambda>c. c \<noteq> 58) expr;
             params = map rec (params_of expr)
         in case resolvers env resolver_name of
              None \<Rightarrow> group0 expr
            | Some f \<Rightarrow> (case f params of None \<Rightarrow> group0 expr | Some r \<Rightarrow> r))
      else
        (case kwargs env expr of
           Some (Some v) \<Rightarrow> v
         | _ \<Rightarrow> group0 expr))"

lemma resolve_match_cong [fundef_cong]:
  "expr = expr' \<Longrightarrow> (\<And>p. p \<in> set (params_of expr') \<Longrightarrow> rec p = rec' p)
   \<Longrightarrow> resolve_match env rec expr = resolve_match env rec' expr'"
  by (simp add: resolve_match_def cong: map_cong)

lemma last_index_less: "last_index c xs = Some k \<Longrightarrow> k < length xs"
  by (induction xs arbitrary: k) (auto split: option.splits if_splits)

lemma last_index_nth: "last_index c xs = Some k \<Longrightarrow> xs ! k = c"
  by (induction xs arbitrary: k) (auto split: option.splits if_splits)

lemma takeWhile_shorter: "length (takeWhile P xs) \<le> length xs"
  by (induction xs) auto

lemma match_here_sizes:
  assumes "match_here s = Some (g, rest)"
  shows "length g + length rest + 3 = length s"
proof -
  from assms obtain t k where s: "s = 36 # 123 # t"
    and k: "last_index 125 (takeWhile (\<lambda>c. c \<noteq> 10) t) = Some k" "k \<noteq> 0"
    and g: "g = take k t" "rest = drop (Suc k) t"
    by (auto simp: match_here_def split: list.splits if_splits option.splits)
  have "k < length t"
    using last_index_less[OF k(1)] takeWhile_shorter[of "\<lambda>c. c \<noteq> 10" t] by simp
  then show ?thesis using s g by simp
qed

lemma split_on_length: "p \<in> set (split_on c xs) \<Longrightarrow> length p \<le> length xs"
  by (induction xs arbitrary: p) (auto split: if_splits list.splits, fastforce+)

lemma params_of_length: "p \<in> set (params_of g) \<Longrightarrow> length p \<le> length g"
proof -
  assume "p \<in> set (params_of g)"
  then have "length p \<le> length (tl (dropWhile (\<lambda>c. c \<noteq> 58) g))"
    unfolding params_of_def by (rule split_on_length)
  also have "\<dots> \<le> length g"
    using length_dropWhile_le[of "\<lambda>c. c \<noteq> 58" g] by simp
  finally show ?thesis .
qed

lemma strip_length: "length (strip s) \<le> length s"
  unfolding strip_def
  by (metis length_dropWhile_le length_rev order_trans)

text \<open>
  \<open>re_sub env s\<close> is \<open>re.sub(pattern, _resolve, s)\<close>: the leftmost match is replaced and
  the scan goes on after it; a character that starts no match is copied.
  \<open>resolve\<close> strips its argument first. The recursion through the parameters of a
  resolver ends because they are shorter than the string they are cut from.
\<close>

function resolve :: "magics \<Rightarrow> pystr \<Rightarrow> pystr"
  and re_sub :: "magics \<Rightarrow> pystr \<Rightarrow> pystr" where
  "resolve env s = re_sub env (strip s)"
| "re_sub env [] = []"
| "re_sub env (c # cs) =
     (case match_here (c # cs) of
        Some (expr, rest) \<Rightarrow> resolve_match env (resolve env) expr @ re_sub env rest
      | None \<Rightarrow> c # re_sub env cs)"
  by pat_completeness auto
termination
proof (relation "measure (\<lambda>x. case x of Inl (env, s) \<Rightarrow> 2 * length s + 1
                                | Inr (env, s) \<Rightarrow> 2 * length s)")
  show "wf (measure (\<lambda>x. case x of Inl (env, s) \<Rightarrow> 2 * length s + 1
                                | Inr (env, s) \<Rightarrow> 2 * length (s :: pystr)))"
    by simp
next
  fix env :: magics and s
  show "(Inr (env, strip s), Inl (env, s))
          \<in> measure (\<lambda>x. case x of Inl (env, s) \<Rightarrow> 2 * length s + 1
                                | Inr (env, s) \<Rightarrow> 2 * length s)"
    using strip_length[of s] by simp
next
  fix env :: magics and c cs x2 x y xa
  assume "match_here (c # cs) = Some x2" "(x, y) = x2" "xa \<in> set (params_of x)"
  then show "(Inl (env, xa), Inr (env, c # cs))
          \<in> measure (\<lambda>x. case x of Inl (env, s) \<Rightarrow> 2 * length s + 1
                                | Inr (env, s) \<Rightarrow> 2 * length s)"
    using match_here_sizes[of "c # cs" x y] params_of_length[of xa x] by simp
next
  fix env :: magics and c cs x2 x y
  assume "match_here (c # cs) = Some x2" "(x, y) = x2"
  then show "(Inr (env, y), Inr (env, c # cs))
          \<in> measure (\<lambda>x. case x of Inl (env, s) \<Rightarrow> 2 * length s + 1
                                | Inr (env, s) \<Rightarrow> 2 * length s)"
    using match_here_sizes[of "c # cs" x y] by simp
next
  fix env :: magics and c :: nat and cs
  show "(Inr (env, cs), Inr (env, c # cs))
          \<in> measure (\<lambda>x. case x of Inl (env, s) \<Rightarrow> 2 * length s + 1
                                | Inr (env, s) \<Rightarrow> 2 * length s)"
    by simp
qed

text \<open>
  \<open>has_open s\<close>: the two characters \<open>${\<close> occur somewhere in \<open>s\<close>.
\<close>

fun has_open :: "pystr \<Rightarrow> bool" where
  "has_open (a # b # t) = ((a = 36 \<and> b = 123) \<or> has_open (b # t))"
| "has_open _ = False"

text \<open>
  A match is unresolvable when its expression has a colon and names no resolver of the
  settings, or names one whose call on the resolved parameters raises; or has no colon
  and names no variable of \<open>kwargs\<close>, or one whose value is \<open>None\<close>.
\<close>

definition unresolvable :: "magics \<Rightarrow> pystr \<Rightarrow> bool" where
  "unresolvable env expr =
     (if 58 \<in> set expr
      then (case resolvers env (takeWhile (\<lambda>c. c \<noteq> 58) expr) of
              None \<Rightarrow> True
            | Some f \<Rightarrow> f (map (resolve env) (params_of expr)) = None)
      else (kwargs env expr = None \<or> kwargs env expr = Some None))"

section \<open>Requests, responses and the outcome of a command (cli.py)\<close>

text \<open>
  The classes \<open>Request\<close> and \<open>Response\<close> live in \<open>catin.comms\<close>. The command line
  reads a response through \<open>ok()\<close>, \<open>error()\<close>, \<open>detail\<close> and, with
  \<open>getattr(response, name, None)\<close>, through \<open>success\<close>, \<open>failure\<close>, \<open>no_op\<close> and
  \<open>pid\<close>; an attribute that is absent reads as \<open>None\<close>. The two predicates are kept as
  independent observations of a response.
\<close>

record response =
  ok :: bool
  error :: bool
  detail :: "pystr option"
  success :: "pystr list option"
  failure :: "pystr list option"
  no_op :: "pystr list option"
  pid :: "int option"

text \<open>
  What \<open>create\<close> sends for one task: the command string of \<open>ProcTask(cmd_str)\<close> (or
  whatever a script exported), the attributes \<open>override_attrs\<close> may set on it, and
  whether the task's class is a subclass of \<open>DeviceRequiredTask\<close>.
\<close>

record task_spec =
  cmd :: pystr
  task_name :: "pystr option"
  priority :: "int option"
  device_required :: bool
  visible_devices :: "int list option"
  requires_memory_per_device :: "int option"
  min_devices :: "int option"

datatype request =
    ReqTest "pystr option"
  | ReqCreate "task_spec list"
  | ReqSuspend "pystr list option"
  | ReqResume "pystr list option"
  | ReqKill "pystr list option" bool
  | ReqRemove "pystr list option"
  | ReqExit

text \<open>
  The daemon is whatever answers a request: a function from a request and the daemon's
  state to a response and the new state. A run of a command yields the lines written
  with \<open>click.echo\<close>, the exit status (0 when the command returns, the argument of
  \<open>sys.exit\<close> otherwise), the requests sent, in order, and the daemon's state afterwards.
\<close>

type_synonym 'd daemon = "request \<Rightarrow> 'd \<Rightarrow> response \<times> 'd"

record 'd run =
  out :: "pystr list"
  exit_code :: nat
  sent :: "request list"
  backend :: 'd

text \<open>\<open>click.echo(message)\<close>: one line; \<open>None\<close> prints an empty line.\<close>

definition click_echo :: "pystr option \<Rightarrow> pystr list" where
  "click_echo msg = [case msg of None \<Rightarrow> [] | Some m \<Rightarrow> m]"

text \<open>
  The local \<open>echo\<close> of \<open>print_response\<close>:
  \<^verbatim>\<open>
    def echo(msg: Optional[str]):
        if msg:
            click.echo(msg)
  \<close>
\<close>

definition echo :: "pystr option \<Rightarrow> pystr list" where
  "echo msg = (case msg of None \<Rightarrow> [] | Some m \<Rightarrow> if m = [] then [] else [m])"

text \<open>
  \<^verbatim>\<open>
    success_msg = success_msg_fn(getattr(response, "success", None))
    failure_msg = failure_msg_fn(getattr(response, "failure", None))
    no_op_msg = no_op_msg_fn(getattr(response, "no_op", None)) if no_op_msg_fn else None
    if response.ok():
        echo(success_msg)
    else:
        if response.error():
            click.echo(response.detail)
            sys.exit(1)
        echo(success_msg)
        echo(no_op_msg)
        echo(failure_msg)
        echo(response.detail)
  \<close>
  The result is the lines printed and the exit status.
\<close>

definition print_response ::
  "response \<Rightarrow> (pystr list option \<Rightarrow> pystr option) \<Rightarrow> (pystr list option \<Rightarrow> pystr option)
     \<Rightarrow> (pystr list option \<Rightarrow> pystr option) option \<Rightarrow> pystr list \<times> nat" where
  "print_response r success_msg_fn failure_msg_fn no_op_msg_fn =
     (let success_msg = success_msg_fn (success r);
          failure_msg = failure_msg_fn (failure r);
          no_op_msg = (case no_op_msg_fn of None \<Rightarrow> None | Some f \<Rightarrow> f (no_op r))
      in if ok r then (echo success_msg, 0)
         else if error r then (click_echo (detail r), 1)
         else (echo success_msg @ echo no_op_msg @ echo failure_msg @ echo (detail r), 0))"

text \<open>
  The three message producers every command passes to \<open>print_response\<close>, for the verb
  of the command (\<open>killed\<close>/\<open>kill\<close>, \<open>suspended\<close>/\<open>suspend\<close>, ...):
  \<^verbatim>\<open>
    lambda success: (
        f"{len(success) if success else 0} tasks killed successfully."
        if response.ok()
        else f"{', '.join(success) } killed successfully." if success else None
    ),
    lambda failure: (f"{', '.join(failure) } failed to kill." if failure else None),
    lambda no_op: (f"{', '.join(no_op) } are not running." if no_op else None),
  \<close>
\<close>

definition truthy_list :: "pystr list option \<Rightarrow> bool" where
  "truthy_list xs = (case xs of None \<Rightarrow> False | Some l \<Rightarrow> l \<noteq> [])"

definition success_msg :: "response \<Rightarrow> string \<Rightarrow> pystr list option \<Rightarrow> pystr option" where
  "success_msg r done_word xs =
     (if ok r
      then Some (str_nat (if truthy_list xs then length (the xs) else 0)
                 @ ustr '' tasks '' @ ustr done_word @ ustr '' successfully.'')
      else if truthy_list xs
      then Some (join (ustr '', '') (the xs) @ ustr '' '' @ ustr done_word @ ustr '' successfully.'')
      else None)"

definition list_msg :: "string \<Rightarrow> pystr list option \<Rightarrow> pystr option" where
  "list_msg tail xs =
     (if truthy_list xs then Some (join (ustr '', '') (the xs) @ ustr tail) else None)"

section \<open>The commands test, suspend, resume, kill, remove and exit (cli.py)\<close>

text \<open>
  \<^verbatim>\<open>
    def test(name: Optional[str]):
        response = Request.test(name)
        if response.error():
            click.echo(response.detail)
            sys.exit(1)
        if name is None:
            name = "backend"
        if not response.ok():
            click.echo(f"{name} does not exist, has not started yet, or has already ended.")
        else:
            if getattr(response, "pid", None):
                click.echo(f"{name} is running with PID {response.pid}.")
            else:
                click.echo(f"{name} is running.")
  \<close>
  \<open>test_lines\<close> is the body after the request; \<open>test\<close> sends the request first.
\<close>

definition truthy_pid :: "int option \<Rightarrow> bool" where
  "truthy_pid p = (case p of None \<Rightarrow> False | Some i \<Rightarrow> i \<noteq> 0)"

definition test_lines :: "pystr option \<Rightarrow> response \<Rightarrow> pystr list \<times> nat" where
  "test_lines name r =
     (if error r then (click_echo (detail r), 1)
      else
        let name = (case name of None \<Rightarrow> ustr ''backend'' | Some n \<Rightarrow> n) in
        if \<not> ok r
        then ([name @ ustr '' does not exist, has not started yet, or has already ended.''], 0)
        else if truthy_pid (pid r)
        then ([name @ ustr '' is running with PID '' @ str_int (the (pid r)) @ ustr ''.''], 0)
        else ([name @ ustr '' is running.''], 0))"

definition test :: "'d daemon \<Rightarrow> pystr option \<Rightarrow> 'd \<Rightarrow> 'd run" where
  "test serve name d =
     (let (r, d') = serve (ReqTest name) d; (ls, code) = test_lines name r
      in \<lparr>out = ls, exit_code = code, sent = [ReqTest name], backend = d'\<rparr>)"

text \<open>
  \<open>suspend\<close>, \<open>resume\<close>, \<open>kill\<close> and \<open>remove\<close> share one shape after their own guards:
  \<^verbatim>\<open>
    if all:
        if name:
            click.confirm("--all/-A option will kill all tasks. Continue?", abort=True)
        name = None
    else:
        if not name:
            click.echo("No task name provided.")
            sys.exit(1)
    response = Request.kill(name, force)
    print_response(response, ...)
  \<close>
  \<open>click.confirm\<close> writes its prompt and reads the user's answer (\<open>answer\<close>); with
  \<open>abort=True\<close> a refusal raises \<open>click.Abort\<close>, which ends the command with status 1.
\<close>

definition select_names ::
  "string \<Rightarrow> bool \<Rightarrow> pystr list \<Rightarrow> bool \<Rightarrow> pystr list \<times> (pystr list option) option" where
  "select_names verb all name answer =
     (if all then
        (if name \<noteq> [] then
           (let prompt = ustr ''--all/-A option will '' @ ustr verb
                         @ ustr '' all tasks. Continue? [y/N]: ''
            in if answer then ([prompt], Some None) else ([prompt], None))
         else ([], Some None))
      else if name = [] then ([ustr ''No task name provided.''], None)
      else ([], Some (Some name)))"

definition command ::
  "'d daemon \<Rightarrow> string \<Rightarrow> (pystr list option \<Rightarrow> request)
     \<Rightarrow> (response \<Rightarrow> pystr list \<times> nat) \<Rightarrow> bool \<Rightarrow> pystr list \<Rightarrow> bool \<Rightarrow> 'd \<Rightarrow> 'd run" where
  "command serve verb req printer all name answer d =
     (case select_names verb all name answer of
        (ls, None) \<Rightarrow> \<lparr>out = ls, exit_code = 1, sent = [], backend = d\<rparr>
      | (ls, Some names) \<Rightarrow>
          (let (r, d') = serve (req names) d; (ls', code) = printer r
           in \<lparr>out = ls @ ls', exit_code = code, sent = [req names], backend = d'\<rparr>))"



text \<open>
  \<^verbatim>\<open>
    def kill(all: bool, force: bool, name: Tuple[str]):
        if "backend" in name:
            click.echo(
                "You cannot kill the backend using kill command. Use `meow exit` instead."
            )
            sys.exit(1)
        ...
  \<close>
\<close>

definition kill :: "'d daemon \<Rightarrow> bool \<Rightarrow> bool \<Rightarrow> pystr list \<Rightarrow> bool \<Rightarrow> 'd \<Rightarrow> 'd run" where
  "kill serve all force name answer d =
     (if ustr ''backend'' \<in> set name
      then \<lparr>out = [ustr ''You cannot kill the backend using kill command. Use `meow exit` instead.''],
            exit_code = 1, sent = [], backend = d\<rparr>
      else command serve ''kill'' (\<lambda>names. ReqKill names force)
             (\<lambda>r. print_response r (success_msg r ''killed'') (list_msg '' failed to kill.'')
                    (Some (list_msg '' are not running.'')))
             all name answer d)"

text \<open>
  \<^verbatim>\<open>
    def remove(all: bool, name: Tuple[str]):
        if "backend" in name:
            click.echo("Backend cannot be removed.")
            sys.exit(1)
        ...
  \<close>
\<close>

definition remove :: "'d daemon \<Rightarrow> bool \<Rightarrow> pystr list \<Rightarrow> bool \<Rightarrow> 'd \<Rightarrow> 'd run" where
  "remove serve all name answer d =
     (if ustr ''backend'' \<in> set name
      then \<lparr>out = [ustr ''Backend cannot be removed.''], exit_code = 1, sent = [], backend = d\<rparr>
      else command serve ''remove'' ReqRemove
             (\<lambda>r. print_response r (success_msg r ''removed'') (list_msg '' failed to remove.'') None)
             all name answer d)"


section \<open>The command create (cli.py)\<close>

















section \<open>The command clean (cli.py)\<close>



section \<open>Valid file names (utils.py, is_valid_filename)\<close>

text \<open>
  \<^verbatim>\<open>
    byte_ct = len(unicode_filename.encode(sys.getfilesystemencoding()))
  \<close>
  \<open>str.encode\<close> raises \<open>UnicodeEncodeError\<close> for a string the file system encoding
  cannot encode.
\<close>

datatype py_error = UnicodeEncodeError

text \<open>
  \<open>string.printable\<close> is \<open>digits + ascii_letters + punctuation + whitespace\<close>, with
  \<open>ascii_letters = ascii_lowercase + ascii_uppercase\<close> and
  \<open>whitespace = ' \t\n\r\x0b\x0c'\<close>.
\<close>

definition string_printable :: pystr where
  "string_printable =
     [48..<58] @ ([97..<123] @ [65..<91])
     @ ([33..<48] @ [58..<65] @ [91..<97] @ [123..<127])
     @ [32, 9, 10, 13, 11, 12]"

text \<open>
  \<^verbatim>\<open>
    unprintable_ascii_chars = [
        chr(c) for c in range(128) if chr(c) not in string.printable
    ]
    _INVALID_PATH_CHARS = "".join(unprintable_ascii_chars)
    _INVALID_FILENAME_CHARS = _INVALID_PATH_CHARS + "/"
    _INVALID_WIN_PATH_CHARS = _INVALID_PATH_CHARS + ':*?"<>|\t\n\r\x0b\x0c'
    _INVALID_WIN_FILENAME_CHARS = (
        _INVALID_FILENAME_CHARS + _INVALID_WIN_PATH_CHARS + "\\"
    )
  \<close>
\<close>

definition unprintable_ascii_chars :: pystr where
  "unprintable_ascii_chars = filter (\<lambda>c. c \<notin> set string_printable) [0..<128]"

definition INVALID_FILENAME_CHARS :: pystr where
  "INVALID_FILENAME_CHARS = unprintable_ascii_chars @ ustr ''/''"

definition INVALID_WIN_PATH_CHARS :: pystr where
  "INVALID_WIN_PATH_CHARS = unprintable_ascii_chars @ [58, 42, 63, 34, 60, 62, 124, 9, 10, 13, 11, 12]"

definition INVALID_WIN_FILENAME_CHARS :: pystr where
  "INVALID_WIN_FILENAME_CHARS = INVALID_FILENAME_CHARS @ INVALID_WIN_PATH_CHARS @ [92]"

text \<open>
  \<^verbatim>\<open>
    additional_reserved = additional_reserved or ()
    _WINDOWS_RESERVED_FILE_NAMES = additional_reserved + (
        ("CON", "PRN", "AUX", "CLOCK$", "NUL")
        + tuple(f"{name:s}{num:d}"
                for name, num in itertools.product(("COM", "LPT"), range(0, 10)))
        + tuple(f"{name:s}{ssd:s}"
                for name, ssd in itertools.product(
                    ("COM", "LPT"),
                    ("\N{SUPERSCRIPT ONE}", "\N{SUPERSCRIPT TWO}", "\N{SUPERSCRIPT THREE}")))
    )
    _MACOS_RESERVED_FILE_NAMES = additional_reserved + (":",)
  \<close>
  The superscript digits one, two and three are U+00B9, U+00B2 and U+00B3.
\<close>

definition WINDOWS_RESERVED_FILE_NAMES :: "pystr list \<Rightarrow> pystr list" where
  "WINDOWS_RESERVED_FILE_NAMES additional_reserved =
     additional_reserved
     @ ([ustr ''CON'', ustr ''PRN'', ustr ''AUX'', ustr ''CLOCK$'', ustr ''NUL'']
        @ concat (map (\<lambda>nm. map (\<lambda>num. nm @ str_nat num) [0..<10]) [ustr ''COM'', ustr ''LPT''])
        @ concat (map (\<lambda>nm. map (\<lambda>ssd. nm @ [ssd]) [185, 178, 179]) [ustr ''COM'', ustr ''LPT'']))"

definition MACOS_RESERVED_FILE_NAMES :: "pystr list \<Rightarrow> pystr list" where
  "MACOS_RESERVED_FILE_NAMES additional_reserved = additional_reserved @ [ustr '':'']"

text \<open>
  \<open>re.compile(f"[{re.escape(chars):s}]", re.UNICODE).findall(s)\<close>: the characters of
  \<open>s\<close> that belong to \<open>chars\<close>, in their order.
\<close>

definition findall :: "pystr \<Rightarrow> pystr \<Rightarrow> pystr" where
  "findall chars s = filter (\<lambda>c. c \<in> set chars) s"

text \<open>
  \<^verbatim>\<open>
    def is_valid_filename(filename, additional_reserved=None):
        is_windows = os.name == "nt"
        unicode_filename = str(filename)
        if len(unicode_filename.strip()) == 0:
            return False
        byte_ct = len(unicode_filename.encode(sys.getfilesystemencoding()))
        min_len, max_len = 1, 255
        if not min_len <= byte_ct < max_len:
            return False
        ...
        if is_windows:
            if unicode_filename in _WINDOWS_RESERVED_FILE_NAMES:
                return False
        else:
            if unicode_filename in _MACOS_RESERVED_FILE_NAMES:
                return False
        ...
        if _RE_INVALID_FILENAME.findall(unicode_filename):
            return False
        if is_windows and _RE_INVALID_WIN_FILENAME.findall(unicode_filename):
            return False
        return True
  \<close>
  The platform, \<open>os.name == "nt"\<close>, and the file system encoding are parameters:
  \<open>encode s\<close> is the number of bytes of \<open>s.encode(sys.getfilesystemencoding())\<close>, or
  \<open>None\<close> when the encoding raises.
\<close>

definition is_valid_filename ::
  "bool \<Rightarrow> (pystr \<Rightarrow> nat option) \<Rightarrow> pystr \<Rightarrow> pystr list \<Rightarrow> py_error + bool" where
  "is_valid_filename is_windows encode filename additional_reserved =
     (if length (strip filename) = 0 then Inr False
      else
        (case encode filename of
           None \<Rightarrow> Inl UnicodeEncodeError
         | Some byte_ct \<Rightarrow>
             if \<not> (1 \<le> byte_ct \<and> byte_ct < 255) then Inr False
             else if is_windows \<and> filename \<in> set (WINDOWS_RESERVED_FILE_NAMES additional_reserved)
             then Inr False
             else if \<not> is_windows \<and> filename \<in> set (MACOS_RESERVED_FILE_NAMES additional_reserved)
             then Inr False
             else if findall INVALID_FILENAME_CHARS filename \<noteq> [] then Inr False
             else if is_windows \<and> findall INVALID_WIN_FILENAME_CHARS filename \<noteq> [] then Inr False
             else Inr True))"




section \<open>The device allocator of the daemon\<close>

text \<open>
  The daemon (the scheduler, its device allocator and its task graph) is not among the
  source files: \<open>cli.py\<close> reaches it through \<open>catin.comms\<close> only. What follows is
  modelled from the specification, sentence by sentence; every definition says which
  sentence it follows.
\<close>

text \<open>
  Modelled from the spec: "DeviceAllocator state. Per-device: total memory capacity
  (bytes), currently reserved memory (sum over tasks holding that device)."
\<close>

record device =
  capacity :: int
  reserved :: int

text \<open>
  Modelled from the spec: the allocator's state is the devices it knows, by device ID
  (section 3, "DeviceAllocator state").
\<close>

type_synonym allocator = "int \<rightharpoonup> device"

text \<open>
  Modelled from the spec: "free memory" (section 4.1) is what of a device's capacity is
  not reserved; a device the allocator does not know has none.
\<close>

definition free_memory :: "allocator \<Rightarrow> int \<Rightarrow> int" where
  "free_memory a d = (case a d of None \<Rightarrow> 0 | Some dev \<Rightarrow> capacity dev - reserved dev)"

text \<open>
  Modelled from the spec: a device is feasible for a request when its "free memory >=
  memory_per_device" (section 4.1).
\<close>

definition fits :: "allocator \<Rightarrow> int \<Rightarrow> int \<Rightarrow> bool" where
  "fits a m d = (a d \<noteq> None \<and> m \<le> free_memory a d)"

text \<open>
  Modelled from the spec: "Selection policy: prefer devices with most free memory first
  (best-fit-descending) to reduce fragmentation; ties broken by lowest device ID for
  determinism." \<open>device_ids\<close> is a set, so a repeated ID counts once.
\<close>

definition candidates :: "allocator \<Rightarrow> int list \<Rightarrow> int \<Rightarrow> int list" where
  "candidates a ids m = sort_key (\<lambda>d. (- free_memory a d, d)) (filter (fits a m) (remdups ids))"

text \<open>
  Modelled from the spec: reserving adds the request's memory to the reserved memory of
  every chosen device, and \<open>release\<close> "returns a task's reserved memory on all its
  assigned devices", which is the same with the sign changed.
\<close>

definition adjust :: "allocator \<Rightarrow> int list \<Rightarrow> int \<Rightarrow> allocator" where
  "adjust a ds m =
     (\<lambda>d. if d \<in> set ds then map_option (\<lambda>dev. dev\<lparr>reserved := reserved dev + m\<rparr>) (a d) else a d)"

text \<open>
  Modelled from the spec: "try_reserve(device_ids: set, memory_per_device: int,
  min_devices: int) -> Optional[set]. Selects the smallest feasible subset of device_ids
  (size >= min_devices) whose free memory >= memory_per_device; returns the chosen device
  subset or None if no such subset of sufficient size exists." The smallest subset of
  size at least \<open>min_devices\<close> has \<open>min_devices\<close> members: the first ones in the order
  of the selection policy. The result is the answer and the allocator after the call.
\<close>

definition try_reserve :: "allocator \<Rightarrow> int list \<Rightarrow> int \<Rightarrow> int \<Rightarrow> int list option \<times> allocator" where
  "try_reserve a device_ids memory min_count =
     (let c = candidates a device_ids memory in
      if int (length c) < min_count then (None, a)
      else (let chosen = take (nat min_count) c
            in (Some chosen, adjust a chosen memory)))"

text \<open>
  Modelled from the spec: "Invariant: reserved <= capacity for every device at all
  times".
\<close>

definition within_capacity :: "allocator \<Rightarrow> bool" where
  "within_capacity a = (\<forall>d dev. a d = Some dev \<longrightarrow> reserved dev \<le> capacity dev)"


section \<open>Tasks and the scheduler of the daemon\<close>

text \<open>
  Modelled from the spec: "State set: WAITING -> RUNNING -> {SUCCEEDED, FAILED}, plus
  WAITING <-> SUSPENDED and RUNNING -> SUSPENDED -> RUNNING (suspend/resume), and any
  non-terminal state -> CANCELLED". "SUSPENDED is reachable only from WAITING (not yet
  admitted) or RUNNING (admitted, process alive but signaled to pause)": the two are told
  apart, since resuming leads back to where the task came from.
\<close>

datatype task_state =
  WAITING | RUNNING | SUSPENDED_WAITING | SUSPENDED_RUNNING | SUCCEEDED | FAILED | CANCELLED

text \<open>Modelled from the spec: "Terminal states: SUCCEEDED, FAILED, CANCELLED."\<close>

definition terminal :: "task_state \<Rightarrow> bool" where
  "terminal st = (st = SUCCEEDED \<or> st = FAILED \<or> st = CANCELLED)"

text \<open>
  Modelled from the spec: the states "RUNNING or RUNNING-suspended" of the invariant of
  section 3, those of an admitted task whose process is alive.
\<close>

definition admitted :: "task_state \<Rightarrow> bool" where
  "admitted st = (st = RUNNING \<or> st = SUSPENDED_RUNNING)"

text \<open>
  Modelled from the spec: "Task. Identity: unique name ..., process/launch
  specification ..., priority ..., creation timestamp. Resource requirements (only for
  device-bound tasks) ... Runtime fields: current state, assigned device set (populated
  only while RUNNING)". The launch specification, the priority and the resource
  requirements are the \<open>task_spec\<close> that the client sent; \<open>assigned\<close> is the
  reservation the task holds, if any.
\<close>

record task =
  job :: pystr
  spec :: task_spec
  created :: nat
  state :: task_state
  assigned :: "int list option"

text \<open>
  Modelled from the spec: "pass a single immutable SchedulerConfig struct
  (cascade-on-failure flag, device capacity table, resolver functions) into the
  Scheduler at construction" (section 9). Next to the flag and the IDs of all devices it
  holds what the scheduler takes from its surroundings: the platform and the file system
  encoding that \<open>is_valid_filename\<close> reads, the generator of names for unnamed tasks,
  and whether the Process Supervisor manages to start a task's process.
\<close>

record scheduler_config =
  cascade_cancel_on_failure :: bool
  all_devices :: "int list"
  on_windows :: bool
  fsencode :: "pystr \<Rightarrow> nat option"
  generate_name :: "pystr list \<Rightarrow> pystr"
  spawn_ok :: "pystr \<Rightarrow> bool"

text \<open>
  Modelled from the spec: "the Scheduler exclusively owns the Task registry (mapping
  name -> Task, names unique) and the DeviceAllocator"; the edges \<open>(A, B)\<close> of the task
  graphs "mean B depends on A". The clock gives the creation timestamps. \<open>granted\<close>
  and \<open>released\<close> are a history that the scheduler never reads: the names of the
  tasks to which a reservation was granted, and of those whose reservation was
  released, one entry for each time.
\<close>

record scheduler =
  registry :: "task list"
  devices :: allocator
  graph :: "(pystr \<times> pystr) list"
  clock :: nat
  granted :: "pystr list"
  released :: "pystr list"

text \<open>
  Modelled from the spec: "Response shape: ... success: list[name], failure: list[name],
  no_op: list[name]". (The fields are named apart from those of \<open>response\<close>.)
\<close>

record outcome =
  succeeded :: "pystr list"
  failed :: "pystr list"
  unchanged :: "pystr list"

text \<open>Modelled from the spec: "priority (integer, default 0, higher runs first)".\<close>

definition task_priority :: "task \<Rightarrow> int" where
  "task_priority t = (case priority (spec t) of None \<Rightarrow> 0 | Some p \<Rightarrow> p)"

text \<open>Modelled from the spec: "visible_devices (set of device IDs, default = all devices)".\<close>

definition task_devices :: "scheduler_config \<Rightarrow> task \<Rightarrow> int list" where
  "task_devices cfg t = (case visible_devices (spec t) of None \<Rightarrow> all_devices cfg | Some ds \<Rightarrow> ds)"

text \<open>Modelled from the spec: "requires_memory_per_device (bytes/MiB, default 0)".\<close>

definition task_memory :: "task \<Rightarrow> int" where
  "task_memory t = (case requires_memory_per_device (spec t) of None \<Rightarrow> 0 | Some m \<Rightarrow> m)"

text \<open>Modelled from the spec: "min_devices (integer >= 1, default 1)".\<close>

definition task_min_devices :: "task \<Rightarrow> int" where
  "task_min_devices t = (case min_devices (spec t) of None \<Rightarrow> 1 | Some k \<Rightarrow> k)"

text \<open>
  Modelled from the spec: "a task can be queried/suspended/killed by name": the task
  registered under a name.
\<close>

definition lookup :: "scheduler \<Rightarrow> pystr \<Rightarrow> task option" where
  "lookup s n = find (\<lambda>t. job t = n) (registry s)"

text \<open>
  Modelled from the spec: every operation of section 4.4 is "a discrete operation on the
  shared registry"; \<open>amend n f\<close> is the change \<open>f\<close> of the task named \<open>n\<close>.
\<close>

definition amend :: "pystr \<Rightarrow> (task \<Rightarrow> task) \<Rightarrow> scheduler \<Rightarrow> scheduler" where
  "amend n f s = s\<lparr>registry := map (\<lambda>t. if job t = n then f t else t) (registry s)\<rparr>"

text \<open>
  Modelled from the spec: "release(task) returns a task's reserved memory on all its
  assigned devices; idempotent - releasing an already-released task is a no-op, never an
  error."
\<close>

definition release :: "pystr \<Rightarrow> scheduler \<Rightarrow> scheduler" where
  "release n s =
     (case lookup s n of
        None \<Rightarrow> s
      | Some t \<Rightarrow>
          (case assigned t of
             None \<Rightarrow> s
           | Some ds \<Rightarrow>
               (amend n (\<lambda>t. t\<lparr>assigned := None\<rparr>) s)
                 \<lparr>devices := adjust (devices s) ds (- task_memory t),
                  released := released s @ [n]\<rparr>))"

text \<open>
  Modelled from the spec: the three outcomes of a request for one task, "success/failure/
  no-op"; "No-ops ... are explicitly a third outcome distinct from success/failure".
\<close>

datatype verdict = Done | Refused | Nothing_to_do

text \<open>
  Modelled from the spec: "suspend(names | None): ... For each named task in WAITING or
  RUNNING: WAITING -> SUSPENDED (simple flag, no device impact); RUNNING -> SUSPENDED
  (signal the process but keep its device reservation ...). Tasks already SUSPENDED, or in
  a terminal state, go to the no-op list, never to failure." A name that is not
  registered is the error \<open>TaskNotFound\<close>.
\<close>

definition suspend_one :: "pystr \<Rightarrow> scheduler \<Rightarrow> verdict \<times> scheduler" where
  "suspend_one n s =
     (case lookup s n of
        None \<Rightarrow> (Refused, s)
      | Some t \<Rightarrow>
          if state t = WAITING then (Done, amend n (\<lambda>t. t\<lparr>state := SUSPENDED_WAITING\<rparr>) s)
          else if state t = RUNNING then (Done, amend n (\<lambda>t. t\<lparr>state := SUSPENDED_RUNNING\<rparr>) s)
          else (Nothing_to_do, s))"

text \<open>
  Modelled from the spec: "resume(names | None): SUSPENDED -> WAITING (if it was
  WAITING-suspended) or SUSPENDED -> RUNNING (if it was RUNNING-suspended, simply
  un-signals the process; resuming never re-checks device availability because the
  reservation was never released). Non-suspended tasks -> no-op list."
\<close>

definition resume_one :: "pystr \<Rightarrow> scheduler \<Rightarrow> verdict \<times> scheduler" where
  "resume_one n s =
     (case lookup s n of
        None \<Rightarrow> (Refused, s)
      | Some t \<Rightarrow>
          if state t = SUSPENDED_WAITING then (Done, amend n (\<lambda>t. t\<lparr>state := WAITING\<rparr>) s)
          else if state t = SUSPENDED_RUNNING then (Done, amend n (\<lambda>t. t\<lparr>state := RUNNING\<rparr>) s)
          else (Nothing_to_do, s))"

text \<open>
  Modelled from the spec: "any non-terminal task -> process killed via Supervisor,
  reservation released, state -> CANCELLED", the transition that \<open>kill\<close>, \<open>remove\<close>
  and the cascade share.
\<close>

definition cancel :: "pystr \<Rightarrow> scheduler \<Rightarrow> scheduler" where
  "cancel n s = amend n (\<lambda>t. t\<lparr>state := CANCELLED\<rparr>) (release n s)"

text \<open>
  Modelled from the spec: "kill(names | None, force): any non-terminal task -> process
  killed via Supervisor, reservation released, state -> CANCELLED. Already-terminal tasks
  -> no-op list." (\<open>force\<close> chooses the signal only. The dependents are cancelled by
  the scheduling pass that follows, see \<open>tick\<close>.)
\<close>

definition kill_one :: "pystr \<Rightarrow> scheduler \<Rightarrow> verdict \<times> scheduler" where
  "kill_one n s =
     (case lookup s n of
        None \<Rightarrow> (Refused, s)
      | Some t \<Rightarrow> if terminal (state t) then (Nothing_to_do, s) else (Done, cancel n s))"

text \<open>
  Modelled from the spec: "remove(names | None): kills if still running, then deletes the
  task ... from the registry entirely; removed tasks are no longer queryable."
\<close>

definition remove_one :: "pystr \<Rightarrow> scheduler \<Rightarrow> verdict \<times> scheduler" where
  "remove_one n s =
     (case lookup s n of
        None \<Rightarrow> (Refused, s)
      | Some t \<Rightarrow>
          (let s1 = (if terminal (state t) then s else cancel n s)
           in (Done, s1\<lparr>registry := filter (\<lambda>t. job t \<noteq> n) (registry s1)\<rparr>)))"

text \<open>
  Modelled from the spec: "a Response (success/failure/no-op lists + detail) is returned":
  the name goes to the list of its verdict.
\<close>

definition record_verdict :: "pystr \<Rightarrow> verdict \<Rightarrow> outcome \<Rightarrow> outcome" where
  "record_verdict n v oc =
     (case v of
        Done \<Rightarrow> oc\<lparr>succeeded := succeeded oc @ [n]\<rparr>
      | Refused \<Rightarrow> oc\<lparr>failed := failed oc @ [n]\<rparr>
      | Nothing_to_do \<Rightarrow> oc\<lparr>unchanged := unchanged oc @ [n]\<rparr>)"

text \<open>
  Modelled from the spec: "For each named task ...": a request is carried out for its
  names one after the other, and "each request is atomic with respect to the registry".
\<close>

fun for_each ::
  "(pystr \<Rightarrow> scheduler \<Rightarrow> verdict \<times> scheduler) \<Rightarrow> pystr list \<Rightarrow> outcome \<times> scheduler
     \<Rightarrow> outcome \<times> scheduler" where
  "for_each act [] (oc, s) = (oc, s)"
| "for_each act (n # ns) (oc, s) =
     (let (v, s') = act n s in for_each act ns (record_verdict n v oc, s'))"

text \<open>Modelled from the spec: "names=None means all".\<close>

definition targets :: "scheduler \<Rightarrow> pystr list option \<Rightarrow> pystr list" where
  "targets s names = (case names of None \<Rightarrow> map job (registry s) | Some ns \<Rightarrow> ns)"

text \<open>Modelled from the spec: the three lists of a response, empty before the request is carried out.\<close>

definition no_outcome :: outcome where
  "no_outcome = \<lparr>succeeded = [], failed = [], unchanged = []\<rparr>"

text \<open>Modelled from the spec: the request "suspend(names | None)" of section 4.4.\<close>

definition sched_suspend :: "pystr list option \<Rightarrow> scheduler \<Rightarrow> outcome \<times> scheduler" where
  "sched_suspend names s = for_each suspend_one (targets s names) (no_outcome, s)"

text \<open>Modelled from the spec: the request "resume(names | None)" of section 4.4.\<close>

definition sched_resume :: "pystr list option \<Rightarrow> scheduler \<Rightarrow> outcome \<times> scheduler" where
  "sched_resume names s = for_each resume_one (targets s names) (no_outcome, s)"

text \<open>Modelled from the spec: the request "kill(names | None, force)" of section 4.4.\<close>

definition sched_kill :: "pystr list option \<Rightarrow> scheduler \<Rightarrow> outcome \<times> scheduler" where
  "sched_kill names s = for_each kill_one (targets s names) (no_outcome, s)"

text \<open>Modelled from the spec: the request "remove(names | None)" of section 4.4.\<close>

definition sched_remove :: "pystr list option \<Rightarrow> scheduler \<Rightarrow> outcome \<times> scheduler" where
  "sched_remove names s = for_each remove_one (targets s names) (no_outcome, s)"

text \<open>
  Modelled from the spec: "On normal termination the Supervisor reports exit code 0 ->
  SUCCEEDED, nonzero -> FAILED"; the reservation is released "on every transition out of"
  RUNNING and RUNNING-suspended. Only a task whose process is alive can exit.
\<close>

definition process_exit :: "pystr \<Rightarrow> int \<Rightarrow> scheduler \<Rightarrow> scheduler" where
  "process_exit n code s =
     (case lookup s n of
        None \<Rightarrow> s
      | Some t \<Rightarrow>
          if admitted (state t)
          then amend n (\<lambda>t. t\<lparr>state := (if code = 0 then SUCCEEDED else FAILED)\<rparr>) (release n s)
          else s)"

text \<open>
  Modelled from the spec: "A node whose predecessor is FAILED or CANCELLED makes the node
  CANCELLED (cascade)": the names of the tasks in one of these two states.
\<close>

definition failed_names :: "scheduler \<Rightarrow> pystr list" where
  "failed_names s = map job (filter (\<lambda>t. state t = FAILED \<or> state t = CANCELLED) (registry s))"

text \<open>
  Modelled from the spec: the cascade "must never revisit an already-terminal node": it
  looks at the tasks that are not in a terminal state only.
\<close>

definition live_names :: "scheduler \<Rightarrow> pystr list" where
  "live_names s = map job (filter (\<lambda>t. \<not> terminal (state t)) (registry s))"

text \<open>
  Modelled from the spec: one round of the propagation: the live tasks, not yet marked,
  that have a predecessor which is FAILED or CANCELLED or marked.
\<close>

definition newly_doomed :: "scheduler \<Rightarrow> pystr list \<Rightarrow> pystr list" where
  "newly_doomed s D =
     filter (\<lambda>q. q \<notin> set D
                 \<and> (\<exists>p \<in> set (failed_names s) \<union> set D. (p, q) \<in> set (graph s)))
       (live_names s)"

text \<open>
  Modelled from the spec: "Cascade propagation must visit all transitive dependents, not
  just direct ones, and must never revisit an already-terminal node (idempotent
  cascade)": rounds are repeated until one marks nothing.
\<close>

function doomed :: "scheduler \<Rightarrow> pystr list \<Rightarrow> pystr list" where
  "doomed s D = (let new = newly_doomed s D in if new = [] then D else doomed s (D @ new))"
  by pat_completeness auto
termination
proof (relation "measure (\<lambda>(s, D). length (filter (\<lambda>q. q \<notin> set D) (live_names s)))")
  show "wf (measure (\<lambda>(s, D). length (filter (\<lambda>q. q \<notin> set D) (live_names s))))" by simp
next
  fix s :: scheduler and D new
  assume new: "new = newly_doomed s D" and ne: "new \<noteq> []"
  define q where "q = hd new"
  have q: "q \<in> set new" using ne by (simp add: q_def)
  then have q1: "q \<in> set (filter (\<lambda>q. q \<notin> set D) (live_names s))"
    using new by (auto simp: newly_doomed_def)
  have split: "filter (\<lambda>q. q \<notin> set (D @ new)) (live_names s)
               = filter (\<lambda>q. q \<notin> set new) (filter (\<lambda>q. q \<notin> set D) (live_names s))"
    by (auto intro: filter_cong)
  have "length (filter (\<lambda>q. q \<notin> set new) (filter (\<lambda>q. q \<notin> set D) (live_names s)))
        < length (filter (\<lambda>q. q \<notin> set D) (live_names s))"
    using q q1 by (intro length_filter_less[of q]) simp_all
  then show "((s, D @ new), (s, D))
        \<in> measure (\<lambda>(s, D). length (filter (\<lambda>q. q \<notin> set D) (live_names s)))"
    using split by simp
qed

declare doomed.simps [simp del]

text \<open>
  Modelled from the spec: "Cascade cancellation: automatic CANCELLED transition of all
  transitive dependents of a FAILED/CANCELLED task."
\<close>

definition cascade :: "scheduler \<Rightarrow> scheduler" where
  "cascade s = fold cancel (doomed s []) s"

text \<open>
  Modelled from the spec: "For graph, eligible = nodes whose direct predecessors are all
  SUCCEEDED and whose own state is WAITING." (A predecessor that was removed from the
  registry never succeeds: "blocked forever, never erroring".)
\<close>

definition eligible :: "scheduler \<Rightarrow> task \<Rightarrow> bool" where
  "eligible s t =
     (state t = WAITING
      \<and> (\<forall>(p, q) \<in> set (graph s). q = job t \<longrightarrow>
            (case lookup s p of None \<Rightarrow> False | Some tp \<Rightarrow> state tp = SUCCEEDED)))"

text \<open>
  Modelled from the spec: tick "computes eligible tasks across all live groups (via 4.2),
  sorts them by descending priority then ascending creation time (stable tie-break)".
\<close>

definition admission_order :: "scheduler \<Rightarrow> task list" where
  "admission_order s =
     sort_key (\<lambda>t. (- task_priority t, created t)) (filter (eligible s) (registry s))"

text \<open>
  Modelled from the spec: "for each, attempts DeviceAllocator.try_reserve (for
  device-bound tasks) or immediate admission (for plain tasks); on success transitions
  WAITING -> RUNNING and calls Process Supervisor start; on resource failure, leaves the
  task WAITING and tries the next candidate"; "ProcessSpawnFailure (treated as an
  immediate FAILED transition, triggering cascade)". A task whose process could not be
  started keeps no reservation.
\<close>

definition admit :: "scheduler_config \<Rightarrow> pystr \<Rightarrow> scheduler \<Rightarrow> scheduler" where
  "admit cfg n s =
     (case lookup s n of
        None \<Rightarrow> s
      | Some t \<Rightarrow>
          if state t \<noteq> WAITING then s
          else if device_required (spec t) then
            (case try_reserve (devices s) (task_devices cfg t) (task_memory t) (task_min_devices t) of
               (None, a) \<Rightarrow> s
             | (Some ds, a) \<Rightarrow>
                 if spawn_ok cfg n
                 then (amend n (\<lambda>t. t\<lparr>state := RUNNING, assigned := Some ds\<rparr>) s)
                        \<lparr>devices := a, granted := granted s @ [n]\<rparr>
                 else amend n (\<lambda>t. t\<lparr>state := FAILED\<rparr>) s)
          else if spawn_ok cfg n then amend n (\<lambda>t. t\<lparr>state := RUNNING\<rparr>) s
          else amend n (\<lambda>t. t\<lparr>state := FAILED\<rparr>) s)"

text \<open>
  Modelled from the spec: "tick() (invoked on every relevant event ...)": one scheduling
  pass. It cancels the dependents of the FAILED and CANCELLED tasks, "unless
  cascade-on-failure is disabled, in which case the node remains blocked indefinitely",
  and then admits the eligible tasks in their order.
\<close>

definition tick :: "scheduler_config \<Rightarrow> scheduler \<Rightarrow> scheduler" where
  "tick cfg s =
     (let s1 = (if cascade_cancel_on_failure cfg then cascade s else s)
      in fold (admit cfg) (map job (admission_order s1)) s1)"

text \<open>
  Modelled from the spec: the failure reason "malformed resource spec" of \<open>create\<close>:
  "min_devices (integer >= 1 ...)", and a memory requirement is not negative.
\<close>

definition malformed :: "task_spec \<Rightarrow> bool" where
  "malformed sp =
     (device_required sp
      \<and> ((case min_devices sp of None \<Rightarrow> False | Some k \<Rightarrow> k < 1)
         \<or> (case requires_memory_per_device sp of None \<Rightarrow> False | Some m \<Rightarrow> m < 0)))"

text \<open>
  Modelled from the spec: "create(tasks): validates name uniqueness (auto-generates if
  absent/colliding), registers tasks in WAITING, returns per-task success/failure (failure
  reasons: duplicate name, invalid filename/characters, malformed resource spec)";
  "validation errors ... rejected before registry mutation, reported per-task in
  failure". A name is generated for a task that has none; the name is checked with
  \<open>is_valid_filename\<close> of \<open>utils.py\<close>.
\<close>

definition create_one :: "scheduler_config \<Rightarrow> task_spec \<Rightarrow> outcome \<times> scheduler \<Rightarrow> outcome \<times> scheduler" where
  "create_one cfg sp = (\<lambda>(oc, s).
     (let n = (case task_name sp of None \<Rightarrow> generate_name cfg (map job (registry s)) | Some n \<Rightarrow> n)
      in if is_valid_filename (on_windows cfg) (fsencode cfg) n [] \<noteq> Inr True
            \<or> n \<in> set (map job (registry s)) \<or> malformed sp
         then (oc\<lparr>failed := failed oc @ [n]\<rparr>, s)
         else (oc\<lparr>succeeded := succeeded oc @ [n]\<rparr>,
               s\<lparr>registry := registry s
                    @ [\<lparr>job = n, spec = sp, created = clock s, state = WAITING, assigned = None\<rparr>],
                 clock := Suc (clock s)\<rparr>)))"

text \<open>Modelled from the spec: the request "create(tasks[])", task by task.\<close>

definition sched_create :: "scheduler_config \<Rightarrow> task_spec list \<Rightarrow> scheduler \<Rightarrow> outcome \<times> scheduler" where
  "sched_create cfg specs s = fold (create_one cfg) specs (no_outcome, s)"

text \<open>
  Modelled from the spec: "all registry mutation ... happens on one serialized control
  loop"; "concurrent client requests are serialized into this loop via a request queue",
  and the workers that watch the processes "enqueue events into the control loop". The
  events are the requests that change the registry, the exit of a task's process with
  its exit code, and a scheduling pass.
\<close>

datatype event =
    Create "task_spec list"
  | Suspend "pystr list option"
  | Resume "pystr list option"
  | Kill "pystr list option"
  | Remove "pystr list option"
  | Exited pystr int
  | Tick

text \<open>Modelled from the spec: what the control loop does with one event.\<close>

fun step :: "scheduler_config \<Rightarrow> event \<Rightarrow> scheduler \<Rightarrow> scheduler" where
  "step cfg (Create specs) s = snd (sched_create cfg specs s)"
| "step cfg (Suspend names) s = snd (sched_suspend names s)"
| "step cfg (Resume names) s = snd (sched_resume names s)"
| "step cfg (Kill names) s = snd (sched_kill names s)"
| "step cfg (Remove names) s = snd (sched_remove names s)"
| "step cfg (Exited n code) s = process_exit n code s"
| "step cfg Tick s = tick cfg s"

text \<open>Modelled from the spec: the control loop, over the events in their order of arrival.\<close>

definition run :: "scheduler_config \<Rightarrow> event list \<Rightarrow> scheduler \<Rightarrow> scheduler" where
  "run cfg es s = fold (step cfg) es s"


text \<open>
  Modelled from the spec: "Reservation: an exclusive claim on a quantity of device
  memory, held for the lifetime of a RUNNING (or RUNNING-suspended) task": the task
  named \<open>n\<close> holds one.
\<close>

definition holds :: "scheduler \<Rightarrow> pystr \<Rightarrow> bool" where
  "holds s n = (case lookup s n of None \<Rightarrow> False | Some t \<Rightarrow> assigned t \<noteq> None)"


text \<open>
  Modelled from the spec: the invariant of section 3, "a task holds a device reservation
  iff its state is RUNNING or RUNNING-suspended", for the tasks that ask for devices: the
  "resource requirements" are "only for device-bound tasks", and a plain task is admitted
  without a reservation.
\<close>

definition sound :: "task \<Rightarrow> bool" where
  "sound t = ((assigned t \<noteq> None) = (device_required (spec t) \<and> admitted (state t)))"

text \<open>
  Modelled from the spec: "names unique", and the invariant of section 3 for every task of
  the registry.
\<close>

definition consistent :: "scheduler \<Rightarrow> bool" where
  "consistent s = (distinct (map job (registry s)) \<and> (\<forall>t \<in> set (registry s). sound t))"


section \<open>Refusing to kill or remove the backend\<close>

text \<open>
  C10. Whenever the name arguments of \<open>kill\<close> or \<open>remove\<close> include the string
  \<open>backend\<close>, the command prints its refusal message and exits with status 1; no
  request has been sent, so the daemon's state (its registry included) is the one the
  command started from. This holds for every daemon, every flag and every answer to a
  confirmation prompt.
\<close>

theorem kill_remove_backend_refused:
  assumes "ustr ''backend'' \<in> set name"
  shows "kill serve all force name answer d =
           \<lparr>out = [ustr ''You cannot kill the backend using kill command. Use `meow exit` instead.''],
            exit_code = 1, sent = [], backend = d\<rparr>
       \<and> remove serve all name answer d =
           \<lparr>out = [ustr ''Backend cannot be removed.''], exit_code = 1, sent = [], backend = d\<rparr>"
  using assms by (simp add: kill_def remove_def)

theorem kill_remove_backend_refused_witness:
  "ustr ''backend'' \<in> set [ustr ''job'', ustr ''backend'']
   \<and> exit_code (kill (\<lambda>q d. (\<lparr>ok = True, error = False, detail = None, success = None,
                                 failure = None, no_op = None, pid = None\<rparr>, Suc d))
                   True True [ustr ''job'', ustr ''backend''] True (0::nat)) = 1
   \<and> sent (kill (\<lambda>q d. (\<lparr>ok = True, error = False, detail = None, success = None,
                                 failure = None, no_op = None, pid = None\<rparr>, Suc d))
                   True True [ustr ''job'', ustr ''backend''] True (0::nat)) = []
   \<and> backend (remove (\<lambda>q d. (\<lparr>ok = True, error = False, detail = None, success = None,
                                 failure = None, no_op = None, pid = None\<rparr>, Suc d))
                   True [ustr ''job'', ustr ''backend''] True (0::nat)) = 0"
  using kill_remove_backend_refused
    [of "[ustr ''job'', ustr ''backend'']"
        "\<lambda>q d. (\<lparr>ok = True, error = False, detail = None, success = None,
                                 failure = None, no_op = None, pid = None\<rparr>, Suc d)"
        True True True "0::nat"]
  by simp

section \<open>Magic strings are resolved or left as they are\<close>

lemma match_here_open: "match_here s = Some r \<Longrightarrow> \<exists>t. s = 36 # 123 # t"
  by (auto simp: match_here_def split: list.splits if_splits)

lemma has_open_Cons: "has_open s \<Longrightarrow> has_open (x # s)"
  by (cases s) auto

lemma has_open_prepend: "has_open s \<Longrightarrow> has_open (p @ s)"
  by (induction p) (auto intro: has_open_Cons)

lemma has_open_extend: "has_open s \<Longrightarrow> has_open (s @ q)"
  by (induction s rule: has_open.induct) auto

lemma re_sub_no_open: "\<not> has_open s \<Longrightarrow> re_sub env s = s"
proof (induction s)
  case Nil
  then show ?case by simp
next
  case (Cons c cs)
  have none: "match_here (c # cs) = None"
  proof (cases "match_here (c # cs)")
    case (Some r)
    then obtain t where "c # cs = 36 # 123 # t" using match_here_open by blast
    with Cons.prems show ?thesis by simp
  qed simp
  have "\<not> has_open cs" using Cons.prems has_open_Cons by blast
  with Cons.IH none show ?case by simp
qed

lemma strip_infix: "\<exists>pre post. s = pre @ strip s @ post"
proof -
  obtain a where a: "s = a @ dropWhile is_space s"
    by (metis takeWhile_dropWhile_id)
  obtain b where b: "rev (dropWhile is_space s) = b @ dropWhile is_space (rev (dropWhile is_space s))"
    by (metis takeWhile_dropWhile_id)
  have "dropWhile is_space s = strip s @ rev b"
    using arg_cong[OF b, of rev] by (simp add: strip_def)
  with a have "s = a @ strip s @ rev b" by simp
  then show ?thesis by blast
qed

lemma strip_no_open: "\<not> has_open s \<Longrightarrow> \<not> has_open (strip s)"
proof
  assume n: "\<not> has_open s" and h: "has_open (strip s)"
  obtain a b where s: "s = a @ strip s @ b" using strip_infix by blast
  have "has_open (a @ strip s @ b)" using h by (intro has_open_prepend has_open_extend)
  with s n show False by simp
qed

lemma strip_padding:
  assumes a: "\<forall>c \<in> set a. is_space c" and b: "\<forall>c \<in> set b. is_space c"
  shows "strip (a @ s @ b) = strip s"
proof -
  have front: "dropWhile is_space (a @ s @ b) = dropWhile is_space (s @ b)"
    using a by (simp add: dropWhile_append2)
  show ?thesis
  proof (cases "\<forall>c \<in> set s. is_space c")
    case True
    then have "\<forall>c \<in> set (s @ b). is_space c" using b by auto
    then have "dropWhile is_space (s @ b) = []" by (simp only: dropWhile_eq_Nil_conv)
    then have e1: "dropWhile is_space (a @ s @ b) = []" using front by simp
    have e2: "dropWhile is_space s = []" using True by simp
    show ?thesis by (simp only: strip_def e1 e2)
  next
    case False
    then obtain x where "x \<in> set s" "\<not> is_space x" by blast
    then have "dropWhile is_space (s @ b) = dropWhile is_space s @ b"
      by (simp add: dropWhile_append1)
    moreover have "dropWhile is_space (rev b @ rev (dropWhile is_space s))
                   = dropWhile is_space (rev (dropWhile is_space s))"
      by (rule dropWhile_append2) (use b in simp)
    ultimately show ?thesis using front by (simp add: strip_def)
  qed
qed

lemma resolve_match_unresolvable:
  "unresolvable env expr \<Longrightarrow> resolve_match env (resolve env) expr = group0 expr"
  by (auto simp: unresolvable_def resolve_match_def split: option.splits if_splits)

lemma match_here_shape:
  assumes "match_here s = Some (g, rest)"
  shows "s = group0 g @ rest"
proof -
  from assms obtain t k where s: "s = 36 # 123 # t"
    and k: "last_index 125 (takeWhile (\<lambda>c. c \<noteq> 10) t) = Some k" "k \<noteq> 0"
    and g: "g = take k t" "rest = drop (Suc k) t"
    by (auto simp: match_here_def split: list.splits if_splits option.splits)
  let ?l = "takeWhile (\<lambda>c. c \<noteq> 10) t"
  have kl: "k < length ?l" using last_index_less[OF k(1)] .
  have "?l ! k = 125" using last_index_nth[OF k(1)] .
  then have tk: "t ! k = 125" using kl by (simp add: takeWhile_nth)
  have klt: "k < length t" using kl takeWhile_shorter[of "\<lambda>c. c \<noteq> 10" t] by simp
  have "t = take k t @ t ! k # drop (Suc k) t" using klt by (simp add: id_take_nth_drop)
  then have "t = g @ 125 # rest" using g tk by simp
  then show ?thesis using s by (simp add: group0_def ustr_def)
qed

lemma re_sub_verbatim:
  "(\<And>expr. unresolvable env expr) \<Longrightarrow> re_sub env s = s"
proof (induction "length s" arbitrary: s rule: less_induct)
  case less
  show ?case
  proof (cases s)
    case Nil
    then show ?thesis by simp
  next
    case (Cons c cs)
    show ?thesis
    proof (cases "match_here (c # cs)")
      case None
      then show ?thesis using less Cons by simp
    next
      case (Some r)
      obtain g rest where r: "r = (g, rest)" by (cases r)
      have sh: "c # cs = group0 g @ rest" using match_here_shape Some r by simp
      have "length rest < length s" using match_here_sizes[of "c # cs" g rest] Some r Cons by simp
      then have rr: "re_sub env rest = rest" using less by simp
      have "re_sub env (c # cs) = resolve_match env (resolve env) g @ re_sub env rest"
        using Some r by simp
      also have "\<dots> = group0 g @ rest"
        using rr resolve_match_unresolvable[OF less.prems] by simp
      finally show ?thesis using sh Cons by simp
    qed
  qed
qed

lemma re_sub_match:
  assumes "match_here s = Some (expr, rest)"
  shows "re_sub env s = resolve_match env (resolve env) expr @ re_sub env rest"
proof -
  obtain c cs where "s = c # cs" using assms match_here_open by blast
  then show ?thesis using assms by simp
qed

text \<open>
  C9. \<open>Magics.resolve\<close> is a total function on strings (its recursion terminates, and
  every exception raised while one match is resolved is caught). A match whose
  expression is unresolvable (no such resolver, a resolver that raises, no such variable
  or a variable that is \<open>None\<close>) is replaced by its own text, so it stays in the output
  where it was; when nothing is resolvable the result is the stripped input. The input
  is stripped before anything else: white space around it does not change the result,
  and an input without \<open>${\<close> resolves to \<open>input.strip()\<close>.
\<close>

theorem resolve_total_verbatim_stripped:
  "(\<not> has_open s \<longrightarrow> resolve env s = strip s)
   \<and> (unresolvable env expr \<longrightarrow> resolve_match env (resolve env) expr = group0 expr)
   \<and> (match_here s = Some (expr, rest) \<and> unresolvable env expr \<longrightarrow>
        s = group0 expr @ rest \<and> re_sub env s = group0 expr @ re_sub env rest)
   \<and> ((\<forall>e. unresolvable env e) \<longrightarrow> resolve env s = strip s)
   \<and> ((\<forall>c \<in> set a. is_space c) \<and> (\<forall>c \<in> set b. is_space c) \<longrightarrow>
        resolve env (a @ s @ b) = resolve env s)"
proof (intro conjI impI)
  assume "\<not> has_open s"
  then show "resolve env s = strip s" by (simp add: re_sub_no_open strip_no_open)
next
  assume "unresolvable env expr"
  then show "resolve_match env (resolve env) expr = group0 expr" by (rule resolve_match_unresolvable)
next
  assume h: "match_here s = Some (expr, rest) \<and> unresolvable env expr"
  then show "s = group0 expr @ rest" using match_here_shape by blast
  from h show "re_sub env s = group0 expr @ re_sub env rest"
    using re_sub_match[of s expr rest env] resolve_match_unresolvable[of env expr] by simp
next
  assume "\<forall>e. unresolvable env e"
  then show "resolve env s = strip s" using re_sub_verbatim[of env "strip s"] by simp
next
  assume "(\<forall>c \<in> set a. is_space c) \<and> (\<forall>c \<in> set b. is_space c)"
  then show "resolve env (a @ s @ b) = resolve env s" using strip_padding[of a b s] by simp
qed

theorem resolve_total_verbatim_stripped_witness:
  "\<not> has_open (ustr '' ab '')
   \<and> resolve \<lparr>resolvers = Map.empty, kwargs = Map.empty\<rparr> (ustr '' ab '') = ustr ''ab''
   \<and> unresolvable \<lparr>resolvers = Map.empty, kwargs = Map.empty\<rparr> (ustr ''v'')
   \<and> match_here (ustr ''${v} x'') = Some (ustr ''v'', ustr '' x'')
   \<and> re_sub \<lparr>resolvers = Map.empty, kwargs = Map.empty\<rparr> (ustr ''${v} x'') = ustr ''${v} x''
   \<and> resolve \<lparr>resolvers = Map.empty, kwargs = Map.empty\<rparr> (ustr '' '' @ ustr ''${f:1}'' @ ustr ''  '')
       = ustr ''${f:1}''"
  using resolve_total_verbatim_stripped
          [of "ustr '' ab ''" "\<lparr>resolvers = Map.empty, kwargs = Map.empty\<rparr>" "ustr ''v''" "ustr '' x''"
              "[]" "[]"]
        resolve_total_verbatim_stripped
          [of "ustr ''${v} x''" "\<lparr>resolvers = Map.empty, kwargs = Map.empty\<rparr>" "ustr ''v''" "ustr '' x''"
              "[]" "[]"]
        resolve_total_verbatim_stripped
          [of "ustr ''${f:1}''" "\<lparr>resolvers = Map.empty, kwargs = Map.empty\<rparr>" "ustr ''v''" "ustr '' x''"
              "ustr '' ''" "ustr ''  ''"]
  by (simp add: ustr_def strip_def is_space_def match_here_def unresolvable_def group0_def)

section \<open>Multirun arguments\<close>



















section \<open>What test sends and prints\<close>

lemma pid_line_not_plain:
  "who @ ustr '' is running with PID '' @ x @ ustr ''.'' \<noteq> who @ ustr '' is running.''"
  by (simp add: ustr_def)

lemma pid_line_not_absent:
  "who @ ustr '' is running with PID '' @ x @ ustr ''.''
     \<noteq> who @ ustr '' does not exist, has not started yet, or has already ended.''"
  by (simp add: ustr_def)

lemma plain_line_not_absent:
  "who @ ustr '' is running.''
     \<noteq> who @ ustr '' does not exist, has not started yet, or has already ended.''"
  by (simp add: ustr_def)

text \<open>
  C7. \<open>test\<close> sends exactly one request, \<open>Request.test(name)\<close>: without a name it is
  addressed to the daemon itself, with a name to that one task. Unless the response is
  an error, it prints one line about \<open>backend\<close> or the named task and returns with
  status 0: the line with the PID exactly when the response is ok and carries a pid
  (one that is not 0), the line without a PID when it is ok and carries none, and
  the line saying that the target does not exist, has not started or has ended exactly
  when the response is not ok.
\<close>

theorem test_targets_and_reports:
  "sent (test serve name d) = [ReqTest name]
   \<and> backend (test serve name d) = snd (serve (ReqTest name) d)
   \<and> (error (fst (serve (ReqTest name) d)) \<longrightarrow>
        out (test serve name d) = click_echo (detail (fst (serve (ReqTest name) d)))
        \<and> exit_code (test serve name d) = 1)
   \<and> (\<not> error (fst (serve (ReqTest name) d)) \<longrightarrow>
        exit_code (test serve name d) = 0
        \<and> (out (test serve name d)
              = [(case name of None \<Rightarrow> ustr ''backend'' | Some n \<Rightarrow> n) @ ustr '' is running with PID ''
                 @ str_int (the (pid (fst (serve (ReqTest name) d)))) @ ustr ''.'']
            \<longleftrightarrow> ok (fst (serve (ReqTest name) d))
                \<and> pid (fst (serve (ReqTest name) d)) \<noteq> None
                \<and> pid (fst (serve (ReqTest name) d)) \<noteq> Some 0)
        \<and> (out (test serve name d)
              = [(case name of None \<Rightarrow> ustr ''backend'' | Some n \<Rightarrow> n) @ ustr '' is running.'']
            \<longleftrightarrow> ok (fst (serve (ReqTest name) d))
                \<and> (pid (fst (serve (ReqTest name) d)) = None
                    \<or> pid (fst (serve (ReqTest name) d)) = Some 0))
        \<and> (out (test serve name d)
              = [(case name of None \<Rightarrow> ustr ''backend'' | Some n \<Rightarrow> n)
                 @ ustr '' does not exist, has not started yet, or has already ended.'']
            \<longleftrightarrow> \<not> ok (fst (serve (ReqTest name) d))))"
proof -
  obtain r d' where sv: "serve (ReqTest name) d = (r, d')" by (cases "serve (ReqTest name) d")
  let ?who = "case name of None \<Rightarrow> ustr ''backend'' | Some n \<Rightarrow> n"
  have run: "test serve name d
             = \<lparr>out = fst (test_lines name r), exit_code = snd (test_lines name r),
                sent = [ReqTest name], backend = d'\<rparr>"
    by (simp add: test_def sv split_beta)
  have tp: "truthy_pid (pid r) \<longleftrightarrow> pid r \<noteq> None \<and> pid r \<noteq> Some 0"
    by (cases "pid r") (simp_all add: truthy_pid_def)
  note differ = pid_line_not_plain[of ?who "str_int (the (pid r))"]
          pid_line_not_absent[of ?who "str_int (the (pid r))"]
          plain_line_not_absent[of ?who]
          pid_line_not_plain[of ?who "str_int (the (pid r))", symmetric]
          pid_line_not_absent[of ?who "str_int (the (pid r))", symmetric]
          plain_line_not_absent[of ?who, symmetric]
  consider (err) "error r"
    | (absent) "\<not> error r" "\<not> ok r"
    | (with_pid) "\<not> error r" "ok r" "truthy_pid (pid r)"
    | (plain) "\<not> error r" "ok r" "\<not> truthy_pid (pid r)"
    by blast
  then show ?thesis
  proof cases
    case err
    then show ?thesis by (simp add: run sv test_lines_def)
  next
    case absent
    then have "test_lines name r
        = ([?who @ ustr '' does not exist, has not started yet, or has already ended.''], 0)"
      by (simp add: test_lines_def Let_def)
    then show ?thesis using absent differ by (simp add: run sv)
  next
    case with_pid
    then have "test_lines name r
        = ([?who @ ustr '' is running with PID '' @ str_int (the (pid r)) @ ustr ''.''], 0)"
      by (simp add: test_lines_def Let_def)
    then show ?thesis using with_pid differ tp by (simp add: run sv)
  next
    case plain
    then have "test_lines name r = ([?who @ ustr '' is running.''], 0)"
      by (simp add: test_lines_def Let_def)
    then show ?thesis using plain differ tp by (auto simp: run sv)
  qed
qed


theorem test_targets_and_reports_witness:
  "sent (test (\<lambda>q d. (\<lparr>ok = True, error = False, detail = None, success = None, failure = None,
                          no_op = None, pid = Some 4242\<rparr>, d)) None ()) = [ReqTest None]
   \<and> out (test (\<lambda>q d. (\<lparr>ok = True, error = False, detail = None, success = None, failure = None,
                          no_op = None, pid = Some 4242\<rparr>, d)) None ())
       = [ustr ''backend is running with PID 4242.'']
   \<and> out (test (\<lambda>q d. (\<lparr>ok = False, error = True, detail = Some (ustr ''no daemon''),
                          success = None, failure = None, no_op = None, pid = None\<rparr>, d))
             (Some (ustr ''job'')) ())
       = [ustr ''no daemon'']
   \<and> exit_code (test (\<lambda>q d. (\<lparr>ok = False, error = True, detail = Some (ustr ''no daemon''),
                          success = None, failure = None, no_op = None, pid = None\<rparr>, d))
             (Some (ustr ''job'')) ()) = 1"
  using test_targets_and_reports
          [where serve = "\<lambda>q d. (\<lparr>ok = True, error = False, detail = None, success = None,
                                  failure = None, no_op = None, pid = Some 4242\<rparr>, d)"
             and name = None and d = "()"]
        test_targets_and_reports
          [where serve = "\<lambda>q d. (\<lparr>ok = False, error = True, detail = Some (ustr ''no daemon''),
                          success = None, failure = None, no_op = None, pid = None\<rparr>, d)"
             and name = "Some (ustr ''job'')" and d = "()"]
  by (simp add: click_echo_def str_int_def str_nat.simps ustr_def)

section \<open>Error responses\<close>






section \<open>Names that are not valid file names\<close>

lemma unprintable_list: "unprintable_ascii_chars = [0..<9] @ [14..<32] @ [127]"
  by code_simp

lemma unprintable_iff:
  "c \<in> set unprintable_ascii_chars \<longleftrightarrow> c < 9 \<or> (14 \<le> c \<and> c < 32) \<or> c = 127"
  by (simp only: unprintable_list set_append set_upt Un_iff atLeastLessThan_iff list.set
        insert_iff empty_iff) auto


lemma invalid_win_filename_iff:
  "findall INVALID_WIN_FILENAME_CHARS s \<noteq> []
     \<longleftrightarrow> (\<exists>c \<in> set s. c < 32 \<or> c = 127 \<or> c \<in> {47, 58, 42, 63, 34, 60, 62, 124, 92})"
proof -
  have "c \<in> set INVALID_WIN_FILENAME_CHARS
          \<longleftrightarrow> c < 32 \<or> c = 127 \<or> c \<in> {47, 58, 42, 63, 34, 60, 62, 124, 92}" for c
  proof -
    have "c \<in> set INVALID_WIN_FILENAME_CHARS \<longleftrightarrow>
            (c < 9 \<or> (14 \<le> c \<and> c < 32) \<or> c = 127) \<or> c = 47
            \<or> c \<in> {58, 42, 63, 34, 60, 62, 124, 9, 10, 13, 11, 12} \<or> c = 92"
      unfolding INVALID_WIN_FILENAME_CHARS_def INVALID_FILENAME_CHARS_def INVALID_WIN_PATH_CHARS_def
      by (simp only: set_append Un_iff unprintable_iff) (simp add: ustr_def, blast)
    also have "\<dots> \<longleftrightarrow> c < 32 \<or> c = 127 \<or> c \<in> {47, 58, 42, 63, 34, 60, 62, 124, 92}"
      by (simp only: insert_iff empty_iff) arith
    finally show ?thesis .
  qed
  then show ?thesis by (auto simp: findall_def filter_empty_conv)
qed






section \<open>The registry stays consistent\<close>

lemma consistent_alt:
  "consistent s = (distinct (map job (registry s)) \<and> (\<forall>t \<in> set (registry s). sound t))"
  by (simp add: consistent_def)

lemma lookup_Some: "lookup s n = Some t \<Longrightarrow> t \<in> set (registry s) \<and> job t = n"
  unfolding lookup_def by (induction "registry s" arbitrary: s) (auto simp: find_Some_iff)

lemma lookup_None: "lookup s n = None \<longleftrightarrow> n \<notin> set (map job (registry s))"
  unfolding lookup_def by (auto simp: find_None_iff)

lemma find_distinct:
  "distinct (map job ts) \<Longrightarrow> t \<in> set ts \<Longrightarrow> find (\<lambda>u. job u = job t) ts = Some t"
  by (induction ts) force+

lemma lookup_member:
  "distinct (map job (registry s)) \<Longrightarrow> t \<in> set (registry s) \<Longrightarrow> lookup s (job t) = Some t"
  unfolding lookup_def by (rule find_distinct)

lemma amend_names:
  "(\<And>t. job (f t) = job t) \<Longrightarrow> map job (registry (amend n f s)) = map job (registry s)"
  by (simp add: amend_def comp_def cong: map_cong)

lemma amend_other [simp]:
  "devices (amend n f s) = devices s" "graph (amend n f s) = graph s"
  "clock (amend n f s) = clock s" "released (amend n f s) = released s"
  "granted (amend n f s) = granted s"
  by (simp_all add: amend_def)

lemma find_map_amend:
  "(\<And>t. job (f t) = job t) \<Longrightarrow>
   find (\<lambda>t. job t = m) (map (\<lambda>t. if job t = n then f t else t) ts)
     = (if m = n then map_option f (find (\<lambda>t. job t = n) ts) else find (\<lambda>t. job t = m) ts)"
  by (induction ts) auto

lemma lookup_amend:
  "(\<And>t. job (f t) = job t) \<Longrightarrow>
   lookup (amend n f s) m = (if m = n then map_option f (lookup s n) else lookup s m)"
  unfolding lookup_def amend_def by (simp add: find_map_amend)

lemma release_registry:
  assumes "distinct (map job (registry s))"
  shows "registry (release n s) = map (\<lambda>t. if job t = n then t\<lparr>assigned := None\<rparr> else t) (registry s)"
proof (cases "lookup s n")
  case None
  then have "\<forall>t \<in> set (registry s). job t \<noteq> n" by (auto simp: lookup_None)
  then have "map (\<lambda>t. if job t = n then t\<lparr>assigned := None\<rparr> else t) (registry s) = registry s"
    by (simp add: map_idI)
  then show ?thesis using None by (simp add: release_def)
next
  case (Some t)
  show ?thesis
  proof (cases "assigned t")
    case None
    have "\<And>u. u \<in> set (registry s) \<Longrightarrow> job u = n \<Longrightarrow> u = t"
      using lookup_member[OF assms] Some by fastforce
    then have "map (\<lambda>t. if job t = n then t\<lparr>assigned := None\<rparr> else t) (registry s) = registry s"
      using None by (intro map_idI) auto
    then show ?thesis using Some None by (simp add: release_def)
  next
    case (Some ds)
    then show ?thesis using \<open>lookup s n = Some t\<close> by (simp add: release_def amend_def)
  qed
qed

lemma release_names: "map job (registry (release n s)) = map job (registry s)"
  by (auto simp: release_def amend_names split: option.splits)

lemma release_graph [simp]: "graph (release n s) = graph s" "clock (release n s) = clock s"
  by (auto simp: release_def split: option.splits)

lemma cancel_registry:
  assumes "distinct (map job (registry s))"
  shows "registry (cancel n s)
         = map (\<lambda>t. if job t = n then t\<lparr>assigned := None, state := CANCELLED\<rparr> else t) (registry s)"
  unfolding cancel_def amend_def by (simp add: release_registry[OF assms] comp_def cong: map_cong)

lemma consistent_registry: "registry s' = registry s \<Longrightarrow> consistent s' = consistent s"
  by (simp add: consistent_def)

lemma amend_consistent:
  assumes c: "consistent s" and j: "\<And>t. job (f t) = job t"
    and f: "\<And>t. lookup s n = Some t \<Longrightarrow> sound (f t)"
  shows "consistent (amend n f s)"
proof -
  have d: "distinct (map job (registry s))" using c by (simp add: consistent_alt)
  have names: "map job (registry (amend n f s)) = map job (registry s)"
    using j by (rule amend_names)
  have "sound u" if "u \<in> set (registry (amend n f s))" for u
  proof -
    from that obtain t where t: "t \<in> set (registry s)" "u = (if job t = n then f t else t)"
      by (auto simp: amend_def)
    show ?thesis
    proof (cases "job t = n")
      case True
      then have "lookup s n = Some t" using lookup_member[OF d t(1)] by simp
      then show ?thesis using f t(2) True by simp
    next
      case False
      then show ?thesis using t c by (simp add: consistent_alt)
    qed
  qed
  then show ?thesis using d names by (simp add: consistent_alt)
qed

lemma sound_lookup: "consistent s \<Longrightarrow> lookup s n = Some t \<Longrightarrow> sound t"
  using lookup_Some by (auto simp: consistent_alt)

lemma cancel_consistent: "consistent s \<Longrightarrow> consistent (cancel n s)"
proof -
  assume c: "consistent s"
  then have d: "distinct (map job (registry s))" by (simp add: consistent_alt)
  have "registry (cancel n s)
        = registry (amend n (\<lambda>t. t\<lparr>assigned := None, state := CANCELLED\<rparr>) s)"
    by (simp add: cancel_registry[OF d] amend_def)
  moreover have "consistent (amend n (\<lambda>t. t\<lparr>assigned := None, state := CANCELLED\<rparr>) s)"
    using c by (rule amend_consistent) (simp_all add: sound_def admitted_def)
  ultimately show ?thesis using consistent_registry by blast
qed

lemma suspend_one_consistent: "consistent s \<Longrightarrow> consistent (snd (suspend_one n s))"
proof -
  assume c: "consistent s"
  show ?thesis
  proof (cases "lookup s n")
    case None
    then show ?thesis using c by (simp add: suspend_one_def)
  next
    case (Some t)
    have st: "sound t" using c Some by (rule sound_lookup)
    have 1: "consistent (amend n (\<lambda>t. t\<lparr>state := SUSPENDED_WAITING\<rparr>) s)" if "state t = WAITING"
      using c by (rule amend_consistent) (use Some st that in \<open>auto simp: sound_def admitted_def\<close>)
    have 2: "consistent (amend n (\<lambda>t. t\<lparr>state := SUSPENDED_RUNNING\<rparr>) s)" if "state t = RUNNING"
      using c by (rule amend_consistent) (use Some st that in \<open>auto simp: sound_def admitted_def\<close>)
    show ?thesis using Some c 1 2 by (simp add: suspend_one_def)
  qed
qed

lemma resume_one_consistent: "consistent s \<Longrightarrow> consistent (snd (resume_one n s))"
proof -
  assume c: "consistent s"
  show ?thesis
  proof (cases "lookup s n")
    case None
    then show ?thesis using c by (simp add: resume_one_def)
  next
    case (Some t)
    have st: "sound t" using c Some by (rule sound_lookup)
    have 1: "consistent (amend n (\<lambda>t. t\<lparr>state := WAITING\<rparr>) s)" if "state t = SUSPENDED_WAITING"
      using c by (rule amend_consistent) (use Some st that in \<open>auto simp: sound_def admitted_def\<close>)
    have 2: "consistent (amend n (\<lambda>t. t\<lparr>state := RUNNING\<rparr>) s)" if "state t = SUSPENDED_RUNNING"
      using c by (rule amend_consistent) (use Some st that in \<open>auto simp: sound_def admitted_def\<close>)
    show ?thesis using Some c 1 2 by (simp add: resume_one_def)
  qed
qed

lemma kill_one_consistent: "consistent s \<Longrightarrow> consistent (snd (kill_one n s))"
  by (auto simp: kill_one_def cancel_consistent split: option.splits)

lemma filter_consistent:
  "consistent s \<Longrightarrow> consistent (s\<lparr>registry := filter P (registry s)\<rparr>)"
  by (auto simp: consistent_alt distinct_map_filter)

lemma remove_one_consistent: "consistent s \<Longrightarrow> consistent (snd (remove_one n s))"
  by (auto simp: remove_one_def Let_def cancel_consistent filter_consistent split: option.splits)

lemma settle_consistent:
  assumes c: "consistent s" and st: "\<not> admitted st"
  shows "consistent (amend n (\<lambda>t. t\<lparr>state := st\<rparr>) (release n s))"
proof -
  have d: "distinct (map job (registry s))" using c by (simp add: consistent_alt)
  have "registry (amend n (\<lambda>t. t\<lparr>state := st\<rparr>) (release n s))
        = registry (amend n (\<lambda>t. t\<lparr>assigned := None, state := st\<rparr>) s)"
    by (simp add: release_registry[OF d] amend_def comp_def cong: map_cong)
  moreover have "consistent (amend n (\<lambda>t. t\<lparr>assigned := None, state := st\<rparr>) s)"
    using c by (rule amend_consistent) (simp_all add: sound_def st)
  ultimately show ?thesis using consistent_registry by blast
qed

lemma process_exit_consistent: "consistent s \<Longrightarrow> consistent (process_exit n code s)"
proof -
  assume c: "consistent s"
  have 1: "consistent (amend n (\<lambda>t. t\<lparr>state := SUCCEEDED\<rparr>) (release n s))"
    using c by (rule settle_consistent) (simp add: admitted_def)
  have 2: "consistent (amend n (\<lambda>t. t\<lparr>state := FAILED\<rparr>) (release n s))"
    using c by (rule settle_consistent) (simp add: admitted_def)
  show ?thesis using c 1 2 unfolding process_exit_def by (simp split: option.splits)
qed

lemma admit_consistent: "consistent s \<Longrightarrow> consistent (admit cfg n s)"
proof -
  assume c: "consistent s"
  show ?thesis
  proof (cases "lookup s n")
    case None
    then show ?thesis using c by (simp add: admit_def)
  next
    case (Some t)
    have st: "sound t" using c Some by (rule sound_lookup)
    have run: "consistent (amend n (\<lambda>t. t\<lparr>state := RUNNING, assigned := Some ds\<rparr>) s)"
      if "state t = WAITING" "device_required (spec t)" for ds
      using c by (rule amend_consistent) (use Some st that in \<open>auto simp: sound_def admitted_def\<close>)
    have plain: "consistent (amend n (\<lambda>t. t\<lparr>state := RUNNING\<rparr>) s)"
      if "state t = WAITING" "\<not> device_required (spec t)"
      using c by (rule amend_consistent) (use Some st that in \<open>auto simp: sound_def admitted_def\<close>)
    have fail: "consistent (amend n (\<lambda>t. t\<lparr>state := FAILED\<rparr>) s)" if "state t = WAITING"
      using c by (rule amend_consistent) (use Some st that in \<open>auto simp: sound_def admitted_def\<close>)
    have dev: "consistent (s'\<lparr>devices := a, granted := g\<rparr>) = consistent s'" for s' a g
      by (rule consistent_registry) simp
    show ?thesis using Some c run plain fail
      by (auto simp: admit_def dev split: option.splits prod.splits)
  qed
qed

lemma fold_consistent:
  "(\<And>n s. consistent s \<Longrightarrow> consistent (f n s)) \<Longrightarrow> consistent s \<Longrightarrow> consistent (fold f ns s)"
  by (induction ns arbitrary: s) simp_all

lemma for_each_snd:
  "snd (for_each act ns (oc, s)) = fold (\<lambda>n s. snd (act n s)) ns s"
  by (induction ns arbitrary: oc s) (simp_all add: split_beta)

lemma cascade_consistent: "consistent s \<Longrightarrow> consistent (cascade s)"
  unfolding cascade_def by (rule fold_consistent) (rule cancel_consistent)

lemma tick_consistent: "consistent s \<Longrightarrow> consistent (tick cfg s)"
  unfolding tick_def Let_def
  by (intro fold_consistent admit_consistent) (simp_all add: cascade_consistent)

lemma create_one_consistent:
  "consistent (snd p) \<Longrightarrow> consistent (snd (create_one cfg sp p))"
  by (cases p) (auto simp: create_one_def Let_def consistent_alt sound_def admitted_def)

lemma sched_create_consistent: "consistent s \<Longrightarrow> consistent (snd (sched_create cfg specs s))"
proof -
  have "consistent (snd p) \<Longrightarrow> consistent (snd (fold (create_one cfg) specs p))" for p
    by (induction specs arbitrary: p) (simp_all add: create_one_consistent)
  then show "consistent s \<Longrightarrow> consistent (snd (sched_create cfg specs s))"
    by (simp add: sched_create_def)
qed

lemma step_consistent: "consistent s \<Longrightarrow> consistent (step cfg e s)"
  by (cases e)
     (simp_all add: sched_create_consistent sched_suspend_def sched_resume_def sched_kill_def
        sched_remove_def for_each_snd fold_consistent suspend_one_consistent
        resume_one_consistent kill_one_consistent remove_one_consistent
        process_exit_consistent tick_consistent)

lemma run_consistent: "consistent s \<Longrightarrow> consistent (run cfg es s)"
  unfolding run_def by (rule fold_consistent) (rule step_consistent)


section \<open>The contract of try_reserve\<close>

lemma set_candidates: "set (candidates a ids m) = {d \<in> set ids. fits a m d}"
  by (auto simp: candidates_def)

lemma distinct_candidates: "distinct (candidates a ids m)"
  by (simp add: candidates_def)

lemma length_candidates: "length (candidates a ids m) = card {d \<in> set ids. fits a m d}"
  using distinct_card[OF distinct_candidates, of a ids m] by (simp add: set_candidates)

lemma no_feasible_subset:
  assumes "int (length (candidates a ids m)) < k" "S \<subseteq> set ids" "k \<le> int (card S)"
  shows "\<exists>d \<in> S. \<not> fits a m d"
proof (rule ccontr)
  assume "\<not> (\<exists>d \<in> S. \<not> fits a m d)"
  then have "S \<subseteq> {d \<in> set ids. fits a m d}" using assms(2) by blast
  then have "card S \<le> card {d \<in> set ids. fits a m d}" by (intro card_mono) simp_all
  then show False using assms(1,3) by (simp add: length_candidates)
qed

lemma adjust_within:
  assumes "within_capacity a" "\<forall>d \<in> set ds. fits a m d"
  shows "within_capacity (adjust a ds m)"
  unfolding within_capacity_def
proof (intro allI impI)
  fix d dev assume h: "adjust a ds m d = Some dev"
  show "reserved dev \<le> capacity dev"
  proof (cases "d \<in> set ds")
    case True
    then obtain dev0 where d0: "a d = Some dev0" "dev = dev0\<lparr>reserved := reserved dev0 + m\<rparr>"
      using h by (auto simp: adjust_def)
    have "m \<le> capacity dev0 - reserved dev0"
      using assms(2) True d0(1) by (auto simp: fits_def free_memory_def)
    then show ?thesis using d0(2) by simp
  next
    case False
    then show ?thesis using h assms(1) by (simp add: adjust_def within_capacity_def)
  qed
qed

text \<open>
  C2. The contract of \<open>try_reserve\<close>, for an allocator in which no device has more
  reserved than its capacity. Either the answer is \<open>None\<close>, the allocator is unchanged,
  and every set of at least \<open>min_devices\<close> of the given devices has a member without
  enough free memory; or the answer is a list without repetition of at least
  \<open>min_devices\<close> of the given devices, every one of them known with at least
  \<open>memory_per_device\<close> free, the request's memory has been added to the reserved
  memory of exactly the chosen devices (all of them, and no other device changes), and
  still no device has more reserved than its capacity.
\<close>

theorem try_reserve_contract:
  "within_capacity a \<longrightarrow>
     (case try_reserve a ids m k of
        (None, a') \<Rightarrow>
          a' = a \<and> (\<forall>S. S \<subseteq> set ids \<and> k \<le> int (card S) \<longrightarrow> (\<exists>d \<in> S. \<not> fits a m d))
      | (Some chosen, a') \<Rightarrow>
          set chosen \<subseteq> set ids \<and> distinct chosen \<and> k \<le> int (card (set chosen))
          \<and> (\<forall>d \<in> set chosen. a d \<noteq> None \<and> m \<le> free_memory a d)
          \<and> (\<forall>d. a' d = (if d \<in> set chosen
                          then map_option (\<lambda>dev. dev\<lparr>reserved := reserved dev + m\<rparr>) (a d)
                          else a d))
          \<and> within_capacity a')"
proof
  assume wc: "within_capacity a"
  let ?c = "candidates a ids m"
  show "case try_reserve a ids m k of
        (None, a') \<Rightarrow>
          a' = a \<and> (\<forall>S. S \<subseteq> set ids \<and> k \<le> int (card S) \<longrightarrow> (\<exists>d \<in> S. \<not> fits a m d))
      | (Some chosen, a') \<Rightarrow>
          set chosen \<subseteq> set ids \<and> distinct chosen \<and> k \<le> int (card (set chosen))
          \<and> (\<forall>d \<in> set chosen. a d \<noteq> None \<and> m \<le> free_memory a d)
          \<and> (\<forall>d. a' d = (if d \<in> set chosen
                          then map_option (\<lambda>dev. dev\<lparr>reserved := reserved dev + m\<rparr>) (a d)
                          else a d))
          \<and> within_capacity a'"
  proof (cases "int (length ?c) < k")
    case True
    then have "try_reserve a ids m k = (None, a)" by (simp add: try_reserve_def)
    then show ?thesis using no_feasible_subset[OF True] by auto
  next
    case False
    let ?ch = "take (nat k) ?c"
    have tr: "try_reserve a ids m k = (Some ?ch, adjust a ?ch m)"
      using False by (simp add: try_reserve_def Let_def)
    have sub: "set ?ch \<subseteq> set ?c" by (rule set_take_subset)
    have d: "distinct ?ch" using distinct_candidates by (rule distinct_take)
    have len: "length ?ch = nat k" using False by simp
    have card: "k \<le> int (card (set ?ch))" using distinct_card[OF d] len by simp
    have fit: "\<forall>d \<in> set ?ch. fits a m d" using sub by (auto simp: set_candidates)
    have ids: "set ?ch \<subseteq> set ids" using sub by (auto simp: set_candidates)
    show ?thesis
      using tr ids d card fit adjust_within[OF wc fit]
      by (simp add: fits_def adjust_def)
  qed
qed


theorem try_reserve_contract_witness:
  "within_capacity [0 \<mapsto> \<lparr>capacity = 10, reserved = 0\<rparr>, 1 \<mapsto> \<lparr>capacity = 4, reserved = 2\<rparr>]
   \<and> try_reserve [0 \<mapsto> \<lparr>capacity = 10, reserved = 0\<rparr>, 1 \<mapsto> \<lparr>capacity = 4, reserved = 2\<rparr>]
         [0, 1] 3 1
       = (Some [0], adjust [0 \<mapsto> \<lparr>capacity = 10, reserved = 0\<rparr>, 1 \<mapsto> \<lparr>capacity = 4, reserved = 2\<rparr>]
                      [0] 3)
   \<and> within_capacity
         (adjust [0 \<mapsto> \<lparr>capacity = 10, reserved = 0\<rparr>, 1 \<mapsto> \<lparr>capacity = 4, reserved = 2\<rparr>] [0] 3)"
proof -
  let ?a = "[0 \<mapsto> \<lparr>capacity = 10, reserved = 0\<rparr>, 1 \<mapsto> \<lparr>capacity = (4::int), reserved = (2::int)\<rparr>]
              :: allocator"
  have w: "within_capacity ?a" by (simp add: within_capacity_def)
  have e: "try_reserve ?a [0, 1] 3 1 = (Some [0], adjust ?a [0] 3)"
    by (simp add: try_reserve_def candidates_def fits_def free_memory_def Let_def)
  show ?thesis
    using try_reserve_contract[where a = ?a and ids = "[0, 1]" and m = 3 and k = 1] w e by simp
qed


section \<open>Requests that find nothing to do\<close>

lemma lookup_release: "m \<noteq> n \<Longrightarrow> lookup (release m s) n = lookup s n"
proof -
  assume mn: "m \<noteq> n"
  have "lookup (s'\<lparr>devices := a, released := l\<rparr>) n = lookup s' n" for s' a l
    by (simp add: lookup_def)
  then show ?thesis using mn
    by (auto simp: release_def lookup_amend split: option.splits)
qed

lemma lookup_cancel: "m \<noteq> n \<Longrightarrow> lookup (cancel m s) n = lookup s n"
  by (simp add: cancel_def lookup_amend lookup_release)

lemma suspend_one_other: "m \<noteq> n \<Longrightarrow> lookup (snd (suspend_one m s)) n = lookup s n"
  by (auto simp: suspend_one_def lookup_amend split: option.splits)

lemma resume_one_other: "m \<noteq> n \<Longrightarrow> lookup (snd (resume_one m s)) n = lookup s n"
  by (auto simp: resume_one_def lookup_amend split: option.splits)

lemma kill_one_other: "m \<noteq> n \<Longrightarrow> lookup (snd (kill_one m s)) n = lookup s n"
  by (auto simp: kill_one_def lookup_cancel split: option.splits)

lemma for_each_nothing_to_do:
  assumes idle: "\<And>s. lookup s n = Some t \<Longrightarrow> act n s = (Nothing_to_do, s)"
    and other: "\<And>m s. m \<noteq> n \<Longrightarrow> lookup (snd (act m s)) n = lookup s n"
    and t: "lookup s n = Some t"
  shows "lookup (snd (for_each act ns (oc, s))) n = Some t
       \<and> (n \<in> set ns \<or> n \<in> set (unchanged oc)
            \<longrightarrow> n \<in> set (unchanged (fst (for_each act ns (oc, s)))))
       \<and> (n \<notin> set (failed oc) \<longrightarrow> n \<notin> set (failed (fst (for_each act ns (oc, s)))))
       \<and> (n \<notin> set (succeeded oc) \<longrightarrow> n \<notin> set (succeeded (fst (for_each act ns (oc, s)))))"
  using t
proof (induction ns arbitrary: oc s)
  case Nil
  then show ?case by simp
next
  case (Cons m ns)
  show ?case
  proof (cases "m = n")
    case True
    have a: "act m s = (Nothing_to_do, s)" using idle Cons.prems True by simp
    have eq: "for_each act (m # ns) (oc, s) = for_each act ns (oc\<lparr>unchanged := unchanged oc @ [n]\<rparr>, s)"
      using a True by (simp add: record_verdict_def)
    show ?thesis unfolding eq
      using Cons.IH[OF Cons.prems, of "oc\<lparr>unchanged := unchanged oc @ [n]\<rparr>"] by simp
  next
    case False
    obtain v s' where a: "act m s = (v, s')" by (cases "act m s")
    have l: "lookup s' n = Some t" using other[OF False, of s] a Cons.prems by simp
    have r: "(n \<in> set (unchanged oc) \<longrightarrow> n \<in> set (unchanged (record_verdict m v oc)))
           \<and> (n \<notin> set (failed oc) \<longrightarrow> n \<notin> set (failed (record_verdict m v oc)))
           \<and> (n \<notin> set (succeeded oc) \<longrightarrow> n \<notin> set (succeeded (record_verdict m v oc)))"
      using False by (cases v) (simp_all add: record_verdict_def)
    have eq: "for_each act (m # ns) (oc, s) = for_each act ns (record_verdict m v oc, s')"
      using a by simp
    have mem: "n \<in> set (m # ns) \<longleftrightarrow> n \<in> set ns" using False by auto
    show ?thesis unfolding eq mem using Cons.IH[OF l, of "record_verdict m v oc"] r by blast
  qed
qed

text \<open>
  C4. For a registered task among the targets of a request: \<open>suspend\<close> of a task that
  is already suspended, \<open>resume\<close> of a task that is not suspended and \<open>kill\<close> of a
  task in a terminal state put the task's name on the no-op list of the response and
  neither on the failure list nor on the success list, and the task is registered
  afterwards exactly as it was before (its state included), whatever the request does
  to the other tasks it names.
\<close>

theorem nothing_to_do_is_not_failure:
  "lookup s n = Some t \<and> n \<in> set (targets s names) \<longrightarrow>
     ((state t = SUSPENDED_WAITING \<or> state t = SUSPENDED_RUNNING) \<longrightarrow>
        n \<in> set (unchanged (fst (sched_suspend names s)))
        \<and> n \<notin> set (failed (fst (sched_suspend names s)))
        \<and> n \<notin> set (succeeded (fst (sched_suspend names s)))
        \<and> lookup (snd (sched_suspend names s)) n = Some t)
   \<and> ((state t \<noteq> SUSPENDED_WAITING \<and> state t \<noteq> SUSPENDED_RUNNING) \<longrightarrow>
        n \<in> set (unchanged (fst (sched_resume names s)))
        \<and> n \<notin> set (failed (fst (sched_resume names s)))
        \<and> n \<notin> set (succeeded (fst (sched_resume names s)))
        \<and> lookup (snd (sched_resume names s)) n = Some t)
   \<and> (terminal (state t) \<longrightarrow>
        n \<in> set (unchanged (fst (sched_kill names s)))
        \<and> n \<notin> set (failed (fst (sched_kill names s)))
        \<and> n \<notin> set (succeeded (fst (sched_kill names s)))
        \<and> lookup (snd (sched_kill names s)) n = Some t)"
proof (intro impI conjI; elim conjE)
  assume t: "lookup s n = Some t" and n: "n \<in> set (targets s names)"
    and st: "state t = SUSPENDED_WAITING \<or> state t = SUSPENDED_RUNNING"
  have idle: "\<And>s. lookup s n = Some t \<Longrightarrow> suspend_one n s = (Nothing_to_do, s)"
    using st by (auto simp: suspend_one_def)
  note r = for_each_nothing_to_do[of n t suspend_one s "targets s names" no_outcome,
              OF idle suspend_one_other t]
  show "n \<in> set (unchanged (fst (sched_suspend names s)))"
    "n \<notin> set (failed (fst (sched_suspend names s)))"
    "n \<notin> set (succeeded (fst (sched_suspend names s)))"
    "lookup (snd (sched_suspend names s)) n = Some t"
    using r n by (simp_all add: sched_suspend_def no_outcome_def)
next
  assume t: "lookup s n = Some t" and n: "n \<in> set (targets s names)"
    and st: "state t \<noteq> SUSPENDED_WAITING" "state t \<noteq> SUSPENDED_RUNNING"
  have idle: "\<And>s. lookup s n = Some t \<Longrightarrow> resume_one n s = (Nothing_to_do, s)"
    using st by (auto simp: resume_one_def)
  note r = for_each_nothing_to_do[of n t resume_one s "targets s names" no_outcome,
              OF idle resume_one_other t]
  show "n \<in> set (unchanged (fst (sched_resume names s)))"
    "n \<notin> set (failed (fst (sched_resume names s)))"
    "n \<notin> set (succeeded (fst (sched_resume names s)))"
    "lookup (snd (sched_resume names s)) n = Some t"
    using r n by (simp_all add: sched_resume_def no_outcome_def)
next
  assume t: "lookup s n = Some t" and n: "n \<in> set (targets s names)"
    and st: "terminal (state t)"
  have idle: "\<And>s. lookup s n = Some t \<Longrightarrow> kill_one n s = (Nothing_to_do, s)"
    using st by (auto simp: kill_one_def)
  note r = for_each_nothing_to_do[of n t kill_one s "targets s names" no_outcome,
              OF idle kill_one_other t]
  show "n \<in> set (unchanged (fst (sched_kill names s)))"
    "n \<notin> set (failed (fst (sched_kill names s)))"
    "n \<notin> set (succeeded (fst (sched_kill names s)))"
    "lookup (snd (sched_kill names s)) n = Some t"
    using r n by (simp_all add: sched_kill_def no_outcome_def)
qed


theorem nothing_to_do_is_not_failure_witness:
  "(let plain = \<lparr>cmd = ustr ''true'', task_name = None, priority = None, device_required = False,
                   visible_devices = None, requires_memory_per_device = None, min_devices = None\<rparr>;
        a = \<lparr>job = ustr ''a'', spec = plain, created = 0, state = SUSPENDED_WAITING, assigned = None\<rparr>;
        b = \<lparr>job = ustr ''b'', spec = plain, created = 1, state = CANCELLED, assigned = None\<rparr>;
        s = \<lparr>registry = [a, b], devices = Map.empty, graph = [], clock = 2,
             granted = [], released = []\<rparr>
    in lookup s (ustr ''a'') = Some a \<and> lookup s (ustr ''b'') = Some b
       \<and> ustr ''a'' \<in> set (unchanged (fst (sched_suspend None s)))
       \<and> ustr ''a'' \<notin> set (failed (fst (sched_suspend None s)))
       \<and> lookup (snd (sched_suspend None s)) (ustr ''a'') = Some a
       \<and> ustr ''b'' \<in> set (unchanged (fst (sched_resume (Some [ustr ''b'']) s)))
       \<and> ustr ''b'' \<notin> set (failed (fst (sched_resume (Some [ustr ''b'']) s)))
       \<and> ustr ''b'' \<in> set (unchanged (fst (sched_kill (Some [ustr ''b'']) s)))
       \<and> ustr ''b'' \<notin> set (failed (fst (sched_kill (Some [ustr ''b'']) s)))
       \<and> lookup (snd (sched_kill (Some [ustr ''b'']) s)) (ustr ''b'') = Some b)"
proof -
  let ?plain = "\<lparr>cmd = ustr ''true'', task_name = None, priority = None, device_required = False,
                   visible_devices = None, requires_memory_per_device = None, min_devices = None\<rparr>"
  let ?a = "\<lparr>job = ustr ''a'', spec = ?plain, created = 0, state = SUSPENDED_WAITING, assigned = None\<rparr>"
  let ?b = "\<lparr>job = ustr ''b'', spec = ?plain, created = 1, state = CANCELLED, assigned = None\<rparr>"
  let ?s = "\<lparr>registry = [?a, ?b], devices = Map.empty, graph = [], clock = 2,
             granted = [], released = []\<rparr>"
  have la: "lookup ?s (ustr ''a'') = Some ?a" by (simp add: lookup_def)
  have lb: "lookup ?s (ustr ''b'') = Some ?b" by (simp add: lookup_def ustr_def)
  have ta: "ustr ''a'' \<in> set (targets ?s None)" by (simp add: targets_def)
  have tb: "ustr ''b'' \<in> set (targets ?s (Some [ustr ''b'']))" by (simp add: targets_def)
  show ?thesis
    using nothing_to_do_is_not_failure[where s = ?s and n = "ustr ''a''" and t = ?a and names = None]
          nothing_to_do_is_not_failure[where s = ?s and n = "ustr ''b''" and t = ?b
            and names = "Some [ustr ''b'']"]
          la lb ta tb
    by (simp add: terminal_def Let_def)
qed


section \<open>Reservations are granted and released in turn\<close>

lemma lookup_registry: "registry s' = registry s \<Longrightarrow> lookup s' n = lookup s n"
  by (simp add: lookup_def)

lemma holds_registry: "registry s' = registry s \<Longrightarrow> holds s' n = holds s n"
  by (simp add: holds_def lookup_def)




lemma granted_release [simp]: "granted (release n s) = granted s"
  by (simp add: release_def split: option.splits)









lemma find_filter_other:
  "find (\<lambda>t. job t = m) (filter (\<lambda>t. job t \<noteq> n) ts)
     = (if m = n then None else find (\<lambda>t. job t = m) ts)"
  by (induction ts) auto






lemma find_append_new:
  "find P (ts @ [u]) = (case find P ts of None \<Rightarrow> (if P u then Some u else None) | Some t \<Rightarrow> Some t)"
  by (induction ts) auto


lemma fold_invariant:
  "(\<And>n s. P s \<Longrightarrow> P (f n s)) \<Longrightarrow> P s \<Longrightarrow> P (fold f ns s)"
  by (induction ns arbitrary: s) simp_all









lemma granted_cancel [simp]: "granted (cancel n s) = granted s"
  by (simp add: cancel_def)







lemma admit_other: "m \<noteq> n \<Longrightarrow> lookup (admit cfg m s) n = lookup s n"
proof -
  assume mn: "m \<noteq> n"
  have r: "lookup (s'\<lparr>devices := a, granted := l\<rparr>) k = lookup s' k" for s' a l k
    by (simp add: lookup_def)
  show ?thesis using mn
    by (auto simp: admit_def r lookup_amend split: option.splits prod.splits)
qed


















section \<open>The cascade\<close>

lemma doomed_closed: "newly_doomed s (doomed s D) = []"
proof (induction s D rule: doomed.induct)
  case (1 s D)
  show ?case
  proof (cases "newly_doomed s D = []")
    case True
    then show ?thesis by (simp add: doomed.simps[of s D])
  next
    case False
    then show ?thesis using 1[OF refl False] by (simp add: doomed.simps[of s D] Let_def)
  qed
qed

lemma doomed_mono: "set D \<subseteq> set (doomed s D)"
proof (induction s D rule: doomed.induct)
  case (1 s D)
  show ?case
  proof (cases "newly_doomed s D = []")
    case True
    then show ?thesis by (simp add: doomed.simps[of s D])
  next
    case False
    then show ?thesis using 1[OF refl False] by (simp add: doomed.simps[of s D] Let_def)
  qed
qed

lemma doomed_live: "set D \<subseteq> set (live_names s) \<Longrightarrow> set (doomed s D) \<subseteq> set (live_names s)"
proof (induction s D rule: doomed.induct)
  case (1 s D)
  show ?case
  proof (cases "newly_doomed s D = []")
    case True
    then show ?thesis using 1(2) by (simp add: doomed.simps[of s D])
  next
    case False
    have "set (newly_doomed s D) \<subseteq> set (live_names s)" by (auto simp: newly_doomed_def)
    then have "set (D @ newly_doomed s D) \<subseteq> set (live_names s)" using 1(2) by simp
    then show ?thesis using 1(1)[OF refl False] False by (simp add: doomed.simps[of s D] Let_def)
  qed
qed

lemma doomed_step:
  assumes "q \<in> set (live_names s)" "(p, q) \<in> set (graph s)"
    "p \<in> set (failed_names s) \<or> p \<in> set (doomed s [])"
  shows "q \<in> set (doomed s [])"
proof (rule ccontr)
  assume "q \<notin> set (doomed s [])"
  then have "q \<in> set (newly_doomed s (doomed s []))"
    using assms by (auto simp: newly_doomed_def)
  then show False by (simp add: doomed_closed)
qed

lemma doomed_reaches:
  assumes "p \<in> set (failed_names s)"
    "(p, q) \<in> {(x, y). (x, y) \<in> set (graph s) \<and> y \<in> set (live_names s)}\<^sup>+"
  shows "q \<in> set (doomed s [])"
  using assms(2)
proof (induction rule: trancl_induct)
  case (base y)
  then show ?case using assms(1) doomed_step by auto
next
  case (step y z)
  then show ?case using doomed_step by auto
qed

lemma lookup_cancelled:
  assumes "lookup s n \<noteq> None"
  shows "\<exists>t. lookup (cancel n s) n = Some t \<and> state t = CANCELLED"
proof -
  have "n \<in> set (map job (registry (release n s)))"
    using assms by (simp add: release_names lookup_None)
  then obtain t where "lookup (release n s) n = Some t"
    using lookup_None[of "release n s" n] by auto
  then show ?thesis by (simp add: cancel_def lookup_amend)
qed

lemma cancel_keeps_cancelled:
  assumes "\<exists>t. lookup s n = Some t \<and> state t = CANCELLED"
  shows "\<exists>t. lookup (cancel m s) n = Some t \<and> state t = CANCELLED"
proof (cases "m = n")
  case True
  then show ?thesis using assms lookup_cancelled[of s n] by auto
next
  case False
  then show ?thesis using assms by (simp add: lookup_cancel)
qed

lemma fold_cancel_keeps:
  assumes "\<exists>t. lookup s n = Some t \<and> state t = CANCELLED"
  shows "\<exists>t. lookup (fold cancel D s) n = Some t \<and> state t = CANCELLED"
  by (rule fold_invariant[where P = "\<lambda>s. \<exists>t. lookup s n = Some t \<and> state t = CANCELLED"])
     (use assms cancel_keeps_cancelled in auto)

lemma cancel_registered: "lookup s n \<noteq> None \<Longrightarrow> lookup (cancel m s) n \<noteq> None"
proof -
  have "map job (registry (cancel m s)) = map job (registry s)"
    by (simp add: cancel_def amend_names release_names)
  then show "lookup s n \<noteq> None \<Longrightarrow> lookup (cancel m s) n \<noteq> None"
    by (simp add: lookup_None)
qed

lemma fold_cancel_member:
  assumes "n \<in> set D" "lookup s n \<noteq> None"
  shows "\<exists>t. lookup (fold cancel D s) n = Some t \<and> state t = CANCELLED"
  using assms
proof (induction D arbitrary: s)
  case Nil
  then show ?case by simp
next
  case (Cons m D)
  show ?case
  proof (cases "m = n")
    case True
    then show ?thesis using lookup_cancelled[OF Cons.prems(2)] fold_cancel_keeps by simp
  next
    case False
    then have "n \<in> set D" using Cons.prems(1) by simp
    then show ?thesis using Cons.IH[of "cancel m s"] cancel_registered[OF Cons.prems(2)] by simp
  qed
qed

lemma fold_cancel_other: "n \<notin> set D \<Longrightarrow> lookup (fold cancel D s) n = lookup s n"
  by (induction D arbitrary: s) (auto simp: lookup_cancel)

lemma admit_idle:
  assumes "lookup s n = Some t" "state t \<noteq> WAITING"
  shows "lookup (admit cfg m s) n = Some t"
proof (cases "m = n")
  case True
  then have "admit cfg m s = s" using assms by (simp add: admit_def)
  then show ?thesis using assms by simp
next
  case False
  then show ?thesis using assms by (simp add: admit_other)
qed

lemma fold_admit_idle:
  assumes "lookup s n = Some t" "state t \<noteq> WAITING"
  shows "lookup (fold (admit cfg) ms s) n = Some t"
  by (rule fold_invariant[where P = "\<lambda>s. lookup s n = Some t"])
     (use assms admit_idle in auto)

lemma terminal_not_live:
  assumes "consistent s" "lookup s n = Some t" "terminal (state t)"
  shows "n \<notin> set (live_names s)"
proof
  assume "n \<in> set (live_names s)"
  then obtain u where u: "u \<in> set (registry s)" "job u = n" "\<not> terminal (state u)"
    by (auto simp: live_names_def)
  have "distinct (map job (registry s))" using assms(1) by (simp add: consistent_def)
  then have "lookup s n = Some u" using lookup_member[of s u] u by simp
  then show False using assms u by simp
qed

lemma live_lookup:
  assumes "consistent s" "lookup s n = Some t" "\<not> terminal (state t)"
  shows "n \<in> set (live_names s)"
  using lookup_Some[OF assms(2)] assms(3) by (force simp: live_names_def)

lemma cascade_terminal:
  assumes "consistent s" "lookup s n = Some t" "terminal (state t)"
  shows "lookup (cascade s) n = Some t"
proof -
  have "set (doomed s []) \<subseteq> set (live_names s)" by (rule doomed_live) simp
  then have "n \<notin> set (doomed s [])" using terminal_not_live[OF assms] by auto
  then show ?thesis using assms(2) by (simp add: cascade_def fold_cancel_other)
qed

lemma tick_terminal:
  assumes "consistent s" "lookup s n = Some t" "terminal (state t)"
  shows "lookup (tick cfg s) n = Some t"
proof -
  have w: "state t \<noteq> WAITING" using assms(3) by (auto simp: terminal_def)
  show ?thesis
    using fold_admit_idle[OF cascade_terminal[OF assms] w] fold_admit_idle[OF assms(2) w]
    by (simp add: tick_def Let_def)
qed

lemma tick_cancels:
  assumes "cascade_cancel_on_failure cfg" "q \<in> set (doomed s [])" "lookup s q \<noteq> None"
  shows "\<exists>t. lookup (tick cfg s) q = Some t \<and> state t = CANCELLED"
proof -
  obtain t where t: "lookup (cascade s) q = Some t" "state t = CANCELLED"
    using fold_cancel_member[OF assms(2,3)] by (auto simp: cascade_def)
  have "lookup (tick cfg s) q = Some t"
    using fold_admit_idle[OF t(1)] t(2) assms(1) by (simp add: tick_def Let_def)
  then show ?thesis using t(2) by simp
qed

lemma live_registered: "q \<in> set (live_names s) \<Longrightarrow> lookup s q \<noteq> None"
  by (auto simp: live_names_def lookup_None)


lemma remove_one_other: "m \<noteq> n \<Longrightarrow> lookup (snd (remove_one m s)) n = lookup s n"
proof -
  assume mn: "m \<noteq> n"
  have d: "lookup (s'\<lparr>registry := filter (\<lambda>t. job t \<noteq> m) (registry s')\<rparr>) n = lookup s' n" for s'
    using mn by (auto simp: lookup_def find_filter_other)
  show ?thesis using mn by (auto simp: remove_one_def Let_def d lookup_cancel split: option.splits)
qed

lemma for_each_other:
  assumes "\<And>m s. m \<noteq> n \<Longrightarrow> lookup (snd (act m s)) n = lookup s n" "n \<notin> set ns"
  shows "lookup (snd (for_each act ns (oc, s))) n = lookup s n"
  using assms(2)
proof (induction ns arbitrary: oc s)
  case Nil
  then show ?case by simp
next
  case (Cons m ns)
  obtain v s' where a: "act m s = (v, s')" by (cases "act m s")
  have "lookup s' n = lookup s n" using assms(1)[of m s] Cons.prems a by auto
  then show ?case using Cons.IH[of "record_verdict m v oc" s'] Cons.prems a by simp
qed

lemma create_one_keeps:
  "lookup (snd p) n = Some t \<Longrightarrow> lookup (snd (create_one cfg sp p)) n = Some t"
  by (cases p) (auto simp: create_one_def Let_def lookup_def find_append_new)

lemma sched_create_keeps:
  "lookup s n = Some t \<Longrightarrow> lookup (snd (sched_create cfg specs s)) n = Some t"
proof -
  have "lookup (snd p) n = Some t \<Longrightarrow> lookup (snd (fold (create_one cfg) specs p)) n = Some t" for p
    by (induction specs arbitrary: p) (simp_all add: create_one_keeps)
  then show "lookup s n = Some t \<Longrightarrow> lookup (snd (sched_create cfg specs s)) n = Some t"
    by (simp add: sched_create_def)
qed

lemma process_exit_terminal:
  assumes "lookup s n = Some t" "terminal (state t)"
  shows "lookup (process_exit m code s) n = Some t"
proof (cases "m = n")
  case True
  have "\<not> admitted (state t)" using assms(2) by (auto simp: terminal_def admitted_def)
  then show ?thesis using True assms(1) by (simp add: process_exit_def)
next
  case False
  then show ?thesis using assms(1)
    by (auto simp: process_exit_def lookup_amend lookup_release split: option.splits)
qed

lemma step_terminal:
  assumes c: "consistent s" and t: "lookup s n = Some t" and fin: "terminal (state t)"
    and spared: "e \<noteq> Remove None" "\<And>ns. e = Remove (Some ns) \<Longrightarrow> n \<notin> set ns"
  shows "lookup (step cfg e s) n = Some t"
proof (cases e)
  case (Create specs)
  then show ?thesis using t by (simp add: sched_create_keeps)
next
  case (Suspend names)
  have idle: "\<And>s. lookup s n = Some t \<Longrightarrow> suspend_one n s = (Nothing_to_do, s)"
    using fin by (auto simp: suspend_one_def terminal_def)
  show ?thesis
    using for_each_nothing_to_do[of n t suspend_one s "targets s names" no_outcome,
            OF idle suspend_one_other t] Suspend
    by (simp add: sched_suspend_def)
next
  case (Resume names)
  have idle: "\<And>s. lookup s n = Some t \<Longrightarrow> resume_one n s = (Nothing_to_do, s)"
    using fin by (auto simp: resume_one_def terminal_def)
  show ?thesis
    using for_each_nothing_to_do[of n t resume_one s "targets s names" no_outcome,
            OF idle resume_one_other t] Resume
    by (simp add: sched_resume_def)
next
  case (Kill names)
  have idle: "\<And>s. lookup s n = Some t \<Longrightarrow> kill_one n s = (Nothing_to_do, s)"
    using fin by (auto simp: kill_one_def)
  show ?thesis
    using for_each_nothing_to_do[of n t kill_one s "targets s names" no_outcome,
            OF idle kill_one_other t] Kill
    by (simp add: sched_kill_def)
next
  case (Remove names)
  then obtain ns where ns: "names = Some ns" "n \<notin> set ns"
    using spared by (cases names) auto
  show ?thesis
    using for_each_other[of n remove_one ns no_outcome s, OF remove_one_other ns(2)] t Remove ns(1)
    by (simp add: sched_remove_def targets_def)
next
  case (Exited m code)
  then show ?thesis using process_exit_terminal[OF t fin] by simp
next
  case Tick
  then show ?thesis using tick_terminal[OF c t fin] by simp
qed

lemma run_terminal:
  assumes "consistent s" "lookup s n = Some t" "terminal (state t)"
    "Remove None \<notin> set es" "\<forall>ns. Remove (Some ns) \<in> set es \<longrightarrow> n \<notin> set ns"
  shows "lookup (run cfg es s) n = Some t"
  using assms(1,2,4,5)
proof (induction es arbitrary: s)
  case Nil
  then show ?case by (simp add: run_def)
next
  case (Cons e es)
  have 1: "lookup (step cfg e s) n = Some t"
    using Cons.prems by (intro step_terminal assms(3)) auto
  have 2: "consistent (step cfg e s)" using Cons.prems(1) by (rule step_consistent)
  show ?case using Cons.IH[OF 2 1] Cons.prems by (simp add: run_def)
qed

text \<open>
  C3. In a consistent state, one scheduling pass with cascade enabled cancels the
  dependents of a failed task: for a chain A -> B -> C in which A is FAILED and B and C
  are not in a terminal state, B and C are both CANCELLED after \<open>tick\<close>; more
  generally so is every task reached from a FAILED or CANCELLED task along edges that
  lead to tasks not in a terminal state, however long the path. A task that is in a
  terminal state is not touched by the pass: it is registered afterwards exactly as
  before. And a task in a terminal state, a cancelled one in particular, stays exactly
  as it is through every later sequence of events that does not remove it, so it is
  never admitted.
\<close>

theorem cascade_cancels_dependents:
  "consistent s \<longrightarrow>
     (cascade_cancel_on_failure cfg \<longrightarrow>
        (\<forall>A B C ta tb tc.
            (A, B) \<in> set (graph s) \<and> (B, C) \<in> set (graph s)
            \<and> lookup s A = Some ta \<and> state ta = FAILED
            \<and> lookup s B = Some tb \<and> \<not> terminal (state tb)
            \<and> lookup s C = Some tc \<and> \<not> terminal (state tc)
            \<longrightarrow> map_option state (lookup (tick cfg s) B) = Some CANCELLED
                \<and> map_option state (lookup (tick cfg s) C) = Some CANCELLED)
      \<and> (\<forall>p q. p \<in> set (failed_names s)
                \<and> (p, q) \<in> {(x, y). (x, y) \<in> set (graph s) \<and> y \<in> set (live_names s)}\<^sup>+
            \<longrightarrow> map_option state (lookup (tick cfg s) q) = Some CANCELLED))
   \<and> (\<forall>n t. lookup s n = Some t \<and> terminal (state t) \<longrightarrow> lookup (tick cfg s) n = Some t)
   \<and> (\<forall>n t es. lookup s n = Some t \<and> terminal (state t)
                \<and> Remove None \<notin> set es \<and> (\<forall>ns. Remove (Some ns) \<in> set es \<longrightarrow> n \<notin> set ns)
            \<longrightarrow> lookup (run cfg es s) n = Some t)"
proof (intro impI conjI allI)
  fix A B C ta tb tc
  assume c: "consistent s" and on: "cascade_cancel_on_failure cfg"
    and h: "(A, B) \<in> set (graph s) \<and> (B, C) \<in> set (graph s)
            \<and> lookup s A = Some ta \<and> state ta = FAILED
            \<and> lookup s B = Some tb \<and> \<not> terminal (state tb)
            \<and> lookup s C = Some tc \<and> \<not> terminal (state tc)"
  have a: "A \<in> set (failed_names s)"
    using h lookup_Some[of s A ta] by (force simp: failed_names_def)
  have lb: "B \<in> set (live_names s)" using h c by (auto intro: live_lookup)
  have lc: "C \<in> set (live_names s)" using h c by (auto intro: live_lookup)
  have b: "B \<in> set (doomed s [])" using doomed_step[OF lb, of A] h a by simp
  have cc: "C \<in> set (doomed s [])" using doomed_step[OF lc, of B] h b by simp
  show "map_option state (lookup (tick cfg s) B) = Some CANCELLED"
    using tick_cancels[OF on b] h by auto
  show "map_option state (lookup (tick cfg s) C) = Some CANCELLED"
    using tick_cancels[OF on cc] h by auto
next
  fix p q
  assume on: "cascade_cancel_on_failure cfg"
    and h: "p \<in> set (failed_names s)
          \<and> (p, q) \<in> {(x, y). (x, y) \<in> set (graph s) \<and> y \<in> set (live_names s)}\<^sup>+"
  have q: "q \<in> set (doomed s [])" using h doomed_reaches by blast
  have "set (doomed s []) \<subseteq> set (live_names s)" by (rule doomed_live) simp
  then have "lookup s q \<noteq> None" using q live_registered by blast
  then show "map_option state (lookup (tick cfg s) q) = Some CANCELLED"
    using tick_cancels[OF on q] by auto
next
  fix n t
  assume "consistent s" "lookup s n = Some t \<and> terminal (state t)"
  then show "lookup (tick cfg s) n = Some t" by (simp add: tick_terminal)
next
  fix n t es
  assume "consistent s"
    "lookup s n = Some t \<and> terminal (state t)
     \<and> Remove None \<notin> set es \<and> (\<forall>ns. Remove (Some ns) \<in> set es \<longrightarrow> n \<notin> set ns)"
  then show "lookup (run cfg es s) n = Some t" by (simp add: run_terminal)
qed


theorem cascade_cancels_dependents_witness:
  "(let cfg = \<lparr>cascade_cancel_on_failure = True, all_devices = [0], on_windows = False,
               fsencode = (\<lambda>n. Some (length n)), generate_name = (\<lambda>_. ustr ''job''),
               spawn_ok = (\<lambda>_. True)\<rparr>;
        plain = \<lparr>cmd = ustr ''true'', task_name = None, priority = None, device_required = False,
                 visible_devices = None, requires_memory_per_device = None, min_devices = None\<rparr>;
        a = \<lparr>job = ustr ''a'', spec = plain, created = 0, state = FAILED, assigned = None\<rparr>;
        b = \<lparr>job = ustr ''b'', spec = plain, created = 1, state = WAITING, assigned = None\<rparr>;
        c = \<lparr>job = ustr ''c'', spec = plain, created = 2, state = SUSPENDED_WAITING, assigned = None\<rparr>;
        s = \<lparr>registry = [a, b, c], devices = Map.empty,
             graph = [(ustr ''a'', ustr ''b''), (ustr ''b'', ustr ''c'')], clock = 3,
             granted = [], released = []\<rparr>
    in consistent s
       \<and> map_option state (lookup (tick cfg s) (ustr ''b'')) = Some CANCELLED
       \<and> map_option state (lookup (tick cfg s) (ustr ''c'')) = Some CANCELLED
       \<and> lookup (tick cfg s) (ustr ''a'') = Some a
       \<and> lookup (run cfg [Tick, Resume None, Tick, Remove (Some [ustr ''b''])] s) (ustr ''a'') = Some a)"
proof -
  let ?cfg = "\<lparr>cascade_cancel_on_failure = True, all_devices = [0], on_windows = False,
               fsencode = (\<lambda>n. Some (length n)), generate_name = (\<lambda>_. ustr ''job''),
               spawn_ok = (\<lambda>_. True)\<rparr>"
  let ?plain = "\<lparr>cmd = ustr ''true'', task_name = None, priority = None, device_required = False,
                 visible_devices = None, requires_memory_per_device = None, min_devices = None\<rparr>"
  let ?a = "\<lparr>job = ustr ''a'', spec = ?plain, created = 0, state = FAILED, assigned = None\<rparr>"
  let ?b = "\<lparr>job = ustr ''b'', spec = ?plain, created = 1, state = WAITING, assigned = None\<rparr>"
  let ?c = "\<lparr>job = ustr ''c'', spec = ?plain, created = 2, state = SUSPENDED_WAITING, assigned = None\<rparr>"
  let ?s = "\<lparr>registry = [?a, ?b, ?c], devices = Map.empty,
             graph = [(ustr ''a'', ustr ''b''), (ustr ''b'', ustr ''c'')], clock = 3,
             granted = [], released = []\<rparr>"
  let ?es = "[Tick, Resume None, Tick, Remove (Some [ustr ''b''])]"
  note inst = cascade_cancels_dependents[where s = ?s and cfg = ?cfg]
  have c: "consistent ?s" by (simp add: consistent_def sound_def admitted_def ustr_def)
  have on: "cascade_cancel_on_failure ?cfg" by simp
  have la: "lookup ?s (ustr ''a'') = Some ?a" by (simp add: lookup_def)
  have lb: "lookup ?s (ustr ''b'') = Some ?b" by (simp add: lookup_def ustr_def)
  have lc: "lookup ?s (ustr ''c'') = Some ?c" by (simp add: lookup_def ustr_def)
  have chain: "\<forall>A B C ta tb tc.
            (A, B) \<in> set (graph ?s) \<and> (B, C) \<in> set (graph ?s)
            \<and> lookup ?s A = Some ta \<and> state ta = FAILED
            \<and> lookup ?s B = Some tb \<and> \<not> terminal (state tb)
            \<and> lookup ?s C = Some tc \<and> \<not> terminal (state tc)
            \<longrightarrow> map_option state (lookup (tick ?cfg ?s) B) = Some CANCELLED
                \<and> map_option state (lookup (tick ?cfg ?s) C) = Some CANCELLED"
    using inst c on by blast
  have kept: "\<forall>n t. lookup ?s n = Some t \<and> terminal (state t) \<longrightarrow> lookup (tick ?cfg ?s) n = Some t"
    using inst c by blast
  have stays: "\<forall>n t es. lookup ?s n = Some t \<and> terminal (state t)
                \<and> Remove None \<notin> set es \<and> (\<forall>ns. Remove (Some ns) \<in> set es \<longrightarrow> n \<notin> set ns)
            \<longrightarrow> lookup (run ?cfg es ?s) n = Some t"
    using inst c by blast
  have e: "(ustr ''a'', ustr ''b'') \<in> set (graph ?s)" "(ustr ''b'', ustr ''c'') \<in> set (graph ?s)"
    by simp_all
  have bc: "map_option state (lookup (tick ?cfg ?s) (ustr ''b'')) = Some CANCELLED
          \<and> map_option state (lookup (tick ?cfg ?s) (ustr ''c'')) = Some CANCELLED"
    using chain[rule_format, of "ustr ''a''" "ustr ''b''" "ustr ''c''" ?a ?b ?c] e la lb lc
    by (simp add: terminal_def)
  have ka: "lookup (tick ?cfg ?s) (ustr ''a'') = Some ?a"
    using kept[rule_format, of "ustr ''a''" ?a] la by (simp add: terminal_def)
  have sp: "Remove None \<notin> set ?es" "\<forall>ns. Remove (Some ns) \<in> set ?es \<longrightarrow> ustr ''a'' \<notin> set ns"
    by (simp_all add: ustr_def)
  have ra: "lookup (run ?cfg ?es ?s) (ustr ''a'') = Some ?a"
    using stays[rule_format, of "ustr ''a''" ?a ?es] la sp by (simp add: terminal_def)
  show ?thesis unfolding Let_def using c bc ka ra by blast
qed

end
